theory Spec2Isabelle
  imports Main
begin

section \<open>JavaScript string primitives used by the plugin\<close>

text \<open>
  A JavaScript string is modelled as a \<open>string\<close>: one list element per code unit, so that
  \<open>length\<close>, \<open>slice\<close> and the indices of the regular-expression matcher count the same units.
\<close>

definition startsWith :: "string \<Rightarrow> string \<Rightarrow> bool" where
  "startsWith s p = (take (length p) s = p)"

definition endsWith :: "string \<Rightarrow> string \<Rightarrow> bool" where
  "endsWith s p = (length p \<le> length s \<and> drop (length s - length p) s = p)"

text \<open>\<open>String.prototype.includes\<close>: the pattern occurs somewhere as a contiguous substring.\<close>

fun includes_str :: "string \<Rightarrow> string \<Rightarrow> bool" where
  "includes_str [] p = (p = [])"
| "includes_str (c # cs) p = (startsWith (c # cs) p \<or> includes_str cs p)"

text \<open>
  \<open>String.prototype.replace\<close> with a string pattern: only the first occurrence is replaced;
  a subject that does not contain the pattern is returned unchanged.
\<close>

fun replace_first :: "string \<Rightarrow> string \<Rightarrow> string \<Rightarrow> string" where
  "replace_first [] p r = (if p = [] then r else [])"
| "replace_first (c # cs) p r =
     (if startsWith (c # cs) p then r @ drop (length p) (c # cs)
      else c # replace_first cs p r)"

text \<open>
  \<open>String.prototype.slice\<close>: a negative index counts from the end of the string, and every
  index is clamped to the string.
\<close>

definition slice_index :: "nat \<Rightarrow> int \<Rightarrow> nat" where
  "slice_index len k = (if k < 0 then nat (max (int len + k) 0) else min (nat k) len)"

definition slice_from :: "string \<Rightarrow> int \<Rightarrow> string" where
  "slice_from s a = drop (slice_index (length s) a) s"

definition slice :: "string \<Rightarrow> int \<Rightarrow> int \<Rightarrow> string" where
  "slice s a b =
     (let from = slice_index (length s) a; to = slice_index (length s) b
      in take (to - from) (drop from s))"

text \<open>The first result in the order of the candidates.\<close>

fun first_match :: "(nat \<Rightarrow> 'a option) \<Rightarrow> nat list \<Rightarrow> 'a option" where
  "first_match f [] = None"
| "first_match f (n # ns) = (case f n of Some r \<Rightarrow> Some r | None \<Rightarrow> first_match f ns)"

text \<open>
  Binary data (a \<open>Uint8Array\<close>) is a list of numbers below 256. A string handed to the hash
  is encoded as UTF-8: a code unit below 128 is one byte, one from 128 to 255 two bytes. (The
  model has the code units up to 255.)
\<close>

type_synonym bytes = "nat list"

definition utf8_unit :: "char \<Rightarrow> bytes" where
  "utf8_unit c =
     (let n = (of_char c :: nat) in if n < 128 then [n] else [192 + n div 64, 128 + n mod 64])"

definition utf8 :: "string \<Rightarrow> bytes" where
  "utf8 s = concat (map utf8_unit s)"

section \<open>HTML patcher\<close>

text \<open>The objects pushed onto \<open>changes\<close> by \<open>transformHTML\<close>.\<close>

record change =
  integrity :: string
  crossoriginAttr :: string
  insertPos :: int

definition dquote :: char where
  "dquote = CHR 0x22"

text \<open>The template literal \<open>integrity=...\<close> of the patch loop, with its leading blank.\<close>

definition insertText :: "change \<Rightarrow> string" where
  "insertText c = '' integrity='' @ [dquote] @ integrity c @ [dquote] @ crossoriginAttr c"

text \<open>
  The second loop of \<open>transformHTML\<close>: \<open>html\<close> and \<open>offset\<close> are the two variables it updates
  for each change in turn.
\<close>

fun applyChanges :: "string \<Rightarrow> int \<Rightarrow> change list \<Rightarrow> string" where
  "applyChanges html offset [] = html"
| "applyChanges html offset (c # cs) =
     applyChanges
       (slice html 0 (insertPos c + offset) @ insertText c @ slice_from html (insertPos c + offset))
       (offset + int (length (insertText c)))
       cs"

text \<open>The output position the insertion-position law names for the \<open>i\<close>-th change.\<close>

definition landing :: "change list \<Rightarrow> nat \<Rightarrow> nat" where
  "landing cs i = nat (insertPos (cs ! i)) + sum_list (map (\<lambda>c. length (insertText c)) (take i cs))"

text \<open>
  The text produced by splicing ascending changes into \<open>rest\<close>, whose first character has the
  original position \<open>b\<close>.
\<close>

fun weave :: "string \<Rightarrow> nat \<Rightarrow> change list \<Rightarrow> string" where
  "weave rest b [] = rest"
| "weave rest b (c # cs) =
     take (nat (insertPos c) - b) rest @ insertText c
       @ weave (drop (nat (insertPos c) - b) rest) (nat (insertPos c)) cs"

text \<open>A small document and two changes for it, used to exercise the patch loop.\<close>

definition sample_html :: string where
  "sample_html = ''<a><b>''"

definition sample_changes :: "change list" where
  "sample_changes =
     [\<lparr>integrity = ''X'', crossoriginAttr = '''', insertPos = 2\<rparr>,
      \<lparr>integrity = ''YZ'', crossoriginAttr = '' c'', insertPos = 5\<rparr>]"

section \<open>Filter and crossorigin policy\<close>

definition isExternalUrl :: "string \<Rightarrow> bool" where
  "isExternalUrl url =
     (startsWith url ''http://'' \<or> startsWith url ''https://'' \<or> startsWith url ''//'')"

text \<open>
  A \<open>RegExp\<close> object of the user: what it matches and its flags. \<open>matchAt s j\<close> is the end
  of the match of the expression that begins at position \<open>j\<close> of \<open>s\<close>, if there is one.
\<close>

record regexp =
  matchAt :: "string \<Rightarrow> nat \<Rightarrow> nat option"
  isGlobal :: bool
  isSticky :: bool

text \<open>
  \<open>RegExp.prototype.test\<close>, as a function of the subject and of the \<open>lastIndex\<close> of the object;
  it returns the result and the new \<open>lastIndex\<close>. Without the global and the sticky flag the
  search begins at 0 and \<open>lastIndex\<close> is left alone. With one of them the search begins at
  \<open>lastIndex\<close> (with the sticky flag the match must begin there), a success moves \<open>lastIndex\<close>
  to the end of the match and a failure sets it to 0.
\<close>

definition regexp_test :: "regexp \<Rightarrow> string \<Rightarrow> nat \<Rightarrow> bool \<times> nat" where
  "regexp_test re s lastIndex =
     (if \<not> isGlobal re \<and> \<not> isSticky re then
        (first_match (matchAt re s) [0 ..< Suc (length s)] \<noteq> None, lastIndex)
      else if length s < lastIndex then (False, 0)
      else (case (if isSticky re then matchAt re s lastIndex
                  else first_match (matchAt re s) [lastIndex ..< Suc (length s)]) of
              None \<Rightarrow> (False, 0)
            | Some e \<Rightarrow> (True, e)))"

text \<open>
  An entry of \<open>excludePatterns\<close> or \<open>includePatterns\<close> is a string or a \<open>RegExp\<close> object. The
  object is named by a reference, so that one object may stand in several places; the
  \<open>lastIndex\<close> of every object is kept in a store.
\<close>

datatype pattern = Literal string | RegExp nat regexp

type_synonym regexp_store = "nat \<Rightarrow> nat"

text \<open>
  \<open>matchesPatterns\<close>: \<open>some\<close> visits the entries in order and stops at the first that matches;
  every \<open>test\<close> it calls updates the \<open>lastIndex\<close> of its object.
\<close>

fun matchesPatterns :: "string \<Rightarrow> pattern list \<Rightarrow> regexp_store \<Rightarrow> bool \<times> regexp_store" where
  "matchesPatterns url [] st = (False, st)"
| "matchesPatterns url (Literal p # patterns) st =
     (if includes_str url p then (True, st) else matchesPatterns url patterns st)"
| "matchesPatterns url (RegExp r re # patterns) st =
     (case regexp_test re url (st r) of
        (matched, lastIndex) \<Rightarrow>
          if matched then (True, st(r := lastIndex))
          else matchesPatterns url patterns (st(r := lastIndex)))"

text \<open>
  An entry matches a url, whatever the state of its object: the url contains the string, or the
  expression has a match somewhere in the url.
\<close>

fun entry_matches :: "string \<Rightarrow> pattern \<Rightarrow> bool" where
  "entry_matches url (Literal p) = includes_str url p"
| "entry_matches url (RegExp r re) =
     list_ex (\<lambda>j. matchAt re url j \<noteq> None) [0 ..< Suc (length url)]"

text \<open>
  The \<open>crossorigin\<close> option is declared \<open>string | boolean\<close> and optional; the code also compares
  it with \<open>null\<close>. The custom function is declared to return \<open>string | boolean | null\<close>.
\<close>

datatype crossorigin_option = Absent | Null | Flag bool | Named string

datatype custom_result = ResultNull | ResultFlag bool | ResultNamed string

text \<open>The interface \<open>SriOptions\<close>: every field is optional, \<open>None\<close> is \<open>undefined\<close>.\<close>

record SriOptions =
  ignoreMissingAssets :: "bool option"
  crossorigin :: crossorigin_option
  customCrossorigin :: "(string \<Rightarrow> custom_result) option"
  excludeExternal :: "bool option"
  excludePatterns :: "pattern list option"
  includePatterns :: "pattern list option"

text \<open>
  In the conditions of \<open>shouldProcessUrl\<close> an option counts when it is truthy: a flag when it is
  \<open>true\<close>, a list whenever it is present (an empty array is truthy in JavaScript). The result
  is the decision and the store as the tests left it.
\<close>

definition shouldProcessUrl ::
  "string \<Rightarrow> SriOptions \<Rightarrow> regexp_store \<Rightarrow> bool \<times> regexp_store" where
  "shouldProcessUrl url options st =
     (if excludeExternal options = Some True \<and> isExternalUrl url then (False, st)
      else
        (case (case excludePatterns options of
                 None \<Rightarrow> (False, st)
               | Some patterns \<Rightarrow> matchesPatterns url patterns st) of
           (excluded, st1) \<Rightarrow>
             if excluded then (False, st1)
             else (case includePatterns options of
                     None \<Rightarrow> (True, st1)
                   | Some patterns \<Rightarrow> matchesPatterns url patterns st1)))"

definition crossorigin_attr :: "string \<Rightarrow> string" where
  "crossorigin_attr v = '' crossorigin='' @ [dquote] @ v @ [dquote]"

definition getCrossoriginAttribute :: "string \<Rightarrow> SriOptions \<Rightarrow> string" where
  "getCrossoriginAttribute url options =
     (case customCrossorigin options of
        Some custom \<Rightarrow>
          (case custom url of
             ResultNull \<Rightarrow> ''''
           | ResultFlag False \<Rightarrow> ''''
           | ResultFlag True \<Rightarrow> crossorigin_attr ''anonymous''
           | ResultNamed result \<Rightarrow> crossorigin_attr result)
      | None \<Rightarrow>
          (case crossorigin options of
             Flag False \<Rightarrow> ''''
           | Null \<Rightarrow> ''''
           | Flag True \<Rightarrow> crossorigin_attr ''anonymous''
           | Named v \<Rightarrow> crossorigin_attr v
           | Absent \<Rightarrow> if isExternalUrl url then crossorigin_attr ''anonymous'' else ''''))"

text \<open>Sample policies for the filter and the crossorigin rules.\<close>

definition no_options :: SriOptions where
  "no_options =
     \<lparr>ignoreMissingAssets = None, crossorigin = Absent, customCrossorigin = None,
      excludeExternal = None, excludePatterns = None, includePatterns = None\<rparr>"

text \<open>
  An expression that matches the suffix \<open>.js\<close> of a subject, without flags or with the global
  flag.
\<close>

definition js_suffix :: "bool \<Rightarrow> regexp" where
  "js_suffix g =
     \<lparr>matchAt = (\<lambda>s j. if drop j s = ''.js'' then Some (length s) else None),
      isGlobal = g, isSticky = False\<rparr>"

definition fresh :: regexp_store where
  "fresh = (\<lambda>r. 0)"

definition sample_filter :: SriOptions where
  "sample_filter =
     no_options\<lparr>excludePatterns := Some [Literal ''cdn.unwanted.com''],
                includePatterns := Some [RegExp 0 (js_suffix False)]\<rparr>"

section \<open>Asset resolver\<close>

text \<open>
  \<open>path.posix.resolve\<close> belongs to the platform, not to the plugin. It is modelled after its
  documented algorithm: the arguments are taken from right to left, each non-empty one is put in
  front of the path built so far, until an absolute one has been taken; when none is absolute
  the working directory is taken last. The path is then normalised segment by segment: empty
  segments and \<open>.\<close> are dropped, \<open>..\<close> removes the segment before it, and above the root \<open>..\<close>
  is dropped (kept, for a relative result).
\<close>

fun split_path :: "string \<Rightarrow> string list" where
  "split_path [] = [[]]"
| "split_path (c # cs) =
     (if c = CHR ''/'' then [] # split_path cs
      else (case split_path cs of
              [] \<Rightarrow> [[c]]
            | seg # segs \<Rightarrow> (c # seg) # segs))"

fun join_path :: "string list \<Rightarrow> string" where
  "join_path [] = []"
| "join_path [seg] = seg"
| "join_path (seg # segs) = seg @ ''/'' @ join_path segs"

fun normalize_segments :: "bool \<Rightarrow> string list \<Rightarrow> string list \<Rightarrow> string list" where
  "normalize_segments allowAboveRoot res [] = res"
| "normalize_segments allowAboveRoot res (seg # segs) =
     (if seg = [] \<or> seg = ''.'' then normalize_segments allowAboveRoot res segs
      else if seg = ''..'' then
        (if res \<noteq> [] \<and> last res \<noteq> ''..'' then
           normalize_segments allowAboveRoot (butlast res) segs
         else if allowAboveRoot then normalize_segments allowAboveRoot (res @ [''..'']) segs
         else normalize_segments allowAboveRoot res segs)
      else normalize_segments allowAboveRoot (res @ [seg]) segs)"

text \<open>A segment that normalisation keeps as it is.\<close>

definition plain_segment :: "string \<Rightarrow> bool" where
  "plain_segment s = (s \<noteq> [] \<and> s \<noteq> ''.'' \<and> s \<noteq> ''..'')"

fun resolve_collect :: "string list \<Rightarrow> string \<Rightarrow> string \<times> bool" where
  "resolve_collect [] resolvedPath = (resolvedPath, False)"
| "resolve_collect (p # ps) resolvedPath =
     (if p = [] then resolve_collect ps resolvedPath
      else if hd p = CHR ''/'' then (p @ ''/'' @ resolvedPath, True)
      else resolve_collect ps (p @ ''/'' @ resolvedPath))"

definition posix_resolve :: "string \<Rightarrow> string \<Rightarrow> string \<Rightarrow> string" where
  "posix_resolve cwd from to =
     (case resolve_collect [to, from, cwd] [] of
        (resolvedPath, resolvedAbsolute) \<Rightarrow>
          (let normalized =
                 join_path (normalize_segments (\<not> resolvedAbsolute) [] (split_path resolvedPath))
           in if resolvedAbsolute then ''/'' @ normalized
              else if normalized \<noteq> [] then normalized else ''.''))"

text \<open>\<open>getBundleKey\<close>; \<open>base\<close> is \<open>config.base\<close>, \<open>cwd\<close> the working directory of the build.\<close>

definition getBundleKey :: "string \<Rightarrow> string \<Rightarrow> string \<Rightarrow> string \<Rightarrow> string" where
  "getBundleKey cwd base htmlPath url =
     (if base = ''./'' \<or> base = '''' then posix_resolve cwd htmlPath url
      else replace_first url base '''')"

subsection \<open>Digest\<close>

text \<open>Standard base64 with padding, over bytes given as numbers below 256.\<close>

definition base64_alphabet :: string where
  "base64_alphabet = ''ABCDEFGHIJKLMNOPQRSTUVWXYZabcdefghijklmnopqrstuvwxyz0123456789+/''"

definition base64_digit :: "nat \<Rightarrow> char" where
  "base64_digit n = base64_alphabet ! (n mod 64)"

fun base64 :: "nat list \<Rightarrow> string" where
  "base64 [] = []"
| "base64 [a] =
     [base64_digit (a div 4), base64_digit ((a mod 4) * 16), CHR ''='', CHR ''='']"
| "base64 [a, b] =
     [base64_digit (a div 4), base64_digit ((a mod 4) * 16 + b div 16),
      base64_digit ((b mod 16) * 4), CHR ''='']"
| "base64 (a # b # c # rest) =
     [base64_digit (a div 4), base64_digit ((a mod 4) * 16 + b div 16),
      base64_digit ((b mod 16) * 4 + c div 64), base64_digit (c mod 64)] @ base64 rest"

text \<open>
  What the build receives from outside the plugin: the working directory, the network (\<open>None\<close>
  when \<open>fetch\<close> rejects, otherwise the bytes of the body), the SHA-384 function of the
  \<open>crypto\<close> module, from the bytes hashed to the 48 digest bytes, and the string that
  \<open>toString\<close> returns for a binary asset source.
\<close>

record platform =
  workdir :: string
  fetch :: "string \<Rightarrow> bytes option"
  sha384 :: "bytes \<Rightarrow> bytes"
  decode :: "bytes \<Rightarrow> string"

text \<open>A value of type \<open>string | Uint8Array\<close>.\<close>

datatype source_value = Text string | Binary bytes

datatype bundle_item =
  Chunk (fileName: string) (chunk_code: string)
| Asset (fileName: string) (asset_source: source_value)

type_synonym output_bundle = "(string \<times> bundle_item) list"

datatype error = AssetNotFound string | FetchFailed string | UnsupportedHost

datatype effect = NetworkFetch string | BundleLookup string

text \<open>The bytes that \<open>update\<close> feeds to the hash: a string as UTF-8, binary data as it is.\<close>

definition update_bytes :: "source_value \<Rightarrow> bytes" where
  "update_bytes source = (case source of Text s \<Rightarrow> utf8 s | Binary b \<Rightarrow> b)"

definition digest :: "platform \<Rightarrow> source_value \<Rightarrow> string" where
  "digest pf source = ''sha384-'' @ base64 (sha384 pf (update_bytes source))"

text \<open>
  \<open>calculateIntegrity\<close>. The result is \<open>Inl\<close> for a thrown error, \<open>Inr None\<close> for \<open>null\<close>; the
  first component records what the call did to obtain the content.
\<close>

definition calculateIntegrity ::
  "platform \<Rightarrow> string \<Rightarrow> bool \<Rightarrow> output_bundle \<Rightarrow> string \<Rightarrow> string
    \<Rightarrow> effect list \<times> (error + string option)" where
  "calculateIntegrity pf base ignoreMissingAsset bundle htmlPath url =
     (if startsWith url ''http'' then
        ([NetworkFetch url],
         case fetch pf url of
           None \<Rightarrow> Inl (FetchFailed url)
         | Some body \<Rightarrow> Inr (Some (digest pf (Binary body))))
      else
        (let key = getBundleKey (workdir pf) base htmlPath url in
         ([BundleLookup key],
          case map_of bundle key of
            None \<Rightarrow> if ignoreMissingAsset then Inr None else Inl (AssetNotFound url)
          | Some bundleItem \<Rightarrow>
              Inr (Some (digest pf
                (case bundleItem of
                   Chunk _ code \<Rightarrow> Text code
                 | Asset _ source \<Rightarrow> source))))))"

text \<open>
  The content that a reference resolves to, as the bytes that are hashed: the body fetched for
  a url that is fetched, else the UTF-8 encoding of the code of the chunk, or the source of the
  asset, that the bundle has under the key of the url.
\<close>

definition resolved_content ::
  "platform \<Rightarrow> string \<Rightarrow> output_bundle \<Rightarrow> string \<Rightarrow> string \<Rightarrow> bytes option" where
  "resolved_content pf base bundle htmlPath url =
     (if startsWith url ''http'' then fetch pf url
      else (case map_of bundle (getBundleKey (workdir pf) base htmlPath url) of
              None \<Rightarrow> None
            | Some (Chunk _ code) \<Rightarrow> Some (utf8 code)
            | Some (Asset _ source) \<Rightarrow> Some (update_bytes source)))"

text \<open>A sample platform (its hash is a stand-in that returns the first bytes) and bundle.\<close>

definition sample_platform :: platform where
  "sample_platform =
     \<lparr>workdir = ''/work'',
      fetch = (\<lambda>url. if url = ''https://cdn.example.com/a.css'' then Some (utf8 ''body{}'')
                     else None),
      sha384 = take 4,
      decode = map char_of\<rparr>"

definition sample_bundle :: output_bundle where
  "sample_bundle =
     [(''index.html'', Asset ''index.html'' (Text ''<script src=/assets/app.js></script>'')),
      (''assets/app.js'', Chunk ''assets/app.js'' ''let a''),
      (''assets/app.css'', Asset ''assets/app.css'' (Binary [112, 123, 125]))]"

section \<open>Reference scanner\<close>

text \<open>
  A match as \<open>transformHTML\<close> destructures it: the position \<open>match.index\<close>, the full match and
  the three groups.
\<close>

record rmatch =
  index :: nat
  fullMatch :: string
  beforeSrc :: string
  urlGroup :: string
  afterSrc :: string

text \<open>
  A global regular expression is modelled by its matcher: for a subject and a start position
  within it, the leftmost match beginning at or after that position, if there is one.
\<close>

type_synonym regex = "string \<Rightarrow> nat \<Rightarrow> rmatch option"

text \<open>
  \<open>RegExp.prototype.exec\<close> for a global expression, as a function of the subject and of
  \<open>lastIndex\<close>; it returns the match, or \<open>None\<close> for \<open>null\<close>, and the new \<open>lastIndex\<close>.
\<close>

definition regex_exec :: "regex \<Rightarrow> string \<Rightarrow> nat \<Rightarrow> rmatch option \<times> nat" where
  "regex_exec re s lastIndex =
     (if length s < lastIndex then (None, 0)
      else (case re s lastIndex of
              None \<Rightarrow> (None, 0)
            | Some m \<Rightarrow> (Some m, index m + length (fullMatch m))))"

text \<open>
  What the scanner relies on: a match lies within the subject at or after the start position,
  is not empty, and has at least \<open>least\<close> characters.
\<close>

definition regex_ok :: "nat \<Rightarrow> regex \<Rightarrow> bool" where
  "regex_ok least re =
     (\<forall>s i m. i \<le> length s \<longrightarrow> re s i = Some m \<longrightarrow>
        i \<le> index m \<and> fullMatch m \<noteq> [] \<and> least \<le> length (fullMatch m)
        \<and> index m + length (fullMatch m) \<le> length s)"

subsection \<open>The three tag patterns\<close>

text \<open>
  The patterns of the plugin are sequences of literals and of character classes, single or
  repeated greedily; each group encloses one repeated class.
\<close>

datatype charclass = AnyOf string | NoneOf string

fun in_class :: "charclass \<Rightarrow> char \<Rightarrow> bool" where
  "in_class (AnyOf cs) c = (c \<in> set cs)"
| "in_class (NoneOf cs) c = (c \<notin> set cs)"

datatype item =
  Lit string
| Single charclass
| Rep bool nat charclass

text \<open>
  Matching a pattern at the beginning of a string: the length of the match and the texts of
  its groups. A repetition \<open>Rep captured least cls\<close> first takes as many characters as it can
  and gives them back one by one, down to \<open>least\<close>, until the rest of the pattern matches.
\<close>

fun match_items :: "item list \<Rightarrow> string \<Rightarrow> (nat \<times> string list) option" where
  "match_items [] s = Some (0, [])"
| "match_items (Lit l # items) s =
     (if startsWith s l then
        map_option (\<lambda>(n, groups). (length l + n, groups)) (match_items items (drop (length l) s))
      else None)"
| "match_items (Single cls # items) s =
     (case s of
        [] \<Rightarrow> None
      | c # cs \<Rightarrow>
          if in_class cls c then
            map_option (\<lambda>(n, groups). (Suc n, groups)) (match_items items cs)
          else None)"
| "match_items (Rep captured least cls # items) s =
     first_match
       (\<lambda>k. map_option
               (\<lambda>(n, groups). (k + n, if captured then take k s # groups else groups))
               (match_items items (drop k s)))
       (rev [least ..< Suc (length (takeWhile (in_class cls) s))])"

text \<open>A lower bound on the length of every match of a pattern.\<close>

fun min_length :: "item list \<Rightarrow> nat" where
  "min_length [] = 0"
| "min_length (Lit l # items) = length l + min_length items"
| "min_length (Single cls # items) = Suc (min_length items)"
| "min_length (Rep captured least cls # items) = least + min_length items"

text \<open>The leftmost match in \<open>rest\<close>, the part of the subject from position \<open>i\<close> on.\<close>

fun search :: "item list \<Rightarrow> string \<Rightarrow> nat \<Rightarrow> (nat \<times> nat \<times> string list) option" where
  "search items [] i =
     (case match_items items [] of
        None \<Rightarrow> None
      | Some (n, groups) \<Rightarrow> Some (i, n, groups))"
| "search items (c # cs) i =
     (case match_items items (c # cs) of
        None \<Rightarrow> search items cs (Suc i)
      | Some (n, groups) \<Rightarrow> Some (i, n, groups))"

definition group :: "string list \<Rightarrow> nat \<Rightarrow> string" where
  "group groups k = (if k < length groups then groups ! k else [])"

definition compile :: "item list \<Rightarrow> regex" where
  "compile items s i =
     map_option
       (\<lambda>(start, n, groups).
          \<lparr>index = start, fullMatch = take n (drop start s),
           beforeSrc = group groups 0, urlGroup = group groups 1, afterSrc = group groups 2\<rparr>)
       (search items (drop i s) i)"

definition quotes :: charclass where
  "quotes = AnyOf [CHR 0x27, dquote]"

definition script_pattern :: "item list" where
  "script_pattern =
     [Lit ''<script'', Rep True 0 (NoneOf ''<>''), Rep False 0 quotes, Lit ''src'',
      Rep False 0 quotes, Lit ''='', Rep False 0 quotes,
      Rep True 1 (NoneOf [CHR '' '', CHR 0x27, dquote]), Rep False 0 quotes,
      Rep True 0 (NoneOf ''<>''), Lit ''></script>'']"

definition link_pattern :: "string \<Rightarrow> item list" where
  "link_pattern rel =
     [Lit ''<link'', Rep True 0 (NoneOf ''<>''), Rep False 0 quotes, Lit ''rel'',
      Rep False 0 quotes, Lit ''='', Rep False 0 quotes, Lit rel, Rep False 0 quotes,
      Rep False 1 (NoneOf ''<>''), Rep False 0 quotes, Lit ''href'', Rep False 0 quotes,
      Lit ''='', Single quotes, Rep True 1 (NoneOf [CHR ''^'', CHR '' '', CHR 0x27, dquote]),
      Single quotes, Rep True 0 (NoneOf ''<>''), Lit ''>'']"

definition EXTERNAL_SCRIPT_RE :: regex where
  "EXTERNAL_SCRIPT_RE = compile script_pattern"

definition EXTERNAL_CSS_RE :: regex where
  "EXTERNAL_CSS_RE = compile (link_pattern ''stylesheet'')"

definition EXTERNAL_MODULE_RE :: regex where
  "EXTERNAL_MODULE_RE = compile (link_pattern ''modulepreload'')"

section \<open>The pass over one document\<close>

text \<open>
  The option objects that \<open>transformHTML\<close> builds from the destructured plugin options, with
  their defaults, for \<open>shouldProcessUrl\<close> and for \<open>getCrossoriginAttribute\<close>.
\<close>

definition ignoreMissingAsset :: "SriOptions \<Rightarrow> bool" where
  "ignoreMissingAsset options = (case ignoreMissingAssets options of None \<Rightarrow> False | Some b \<Rightarrow> b)"

definition filterOptions :: "SriOptions \<Rightarrow> SriOptions" where
  "filterOptions options =
     \<lparr>ignoreMissingAssets = None, crossorigin = Absent,
      customCrossorigin = customCrossorigin options,
      excludeExternal = Some (case excludeExternal options of None \<Rightarrow> False | Some b \<Rightarrow> b),
      excludePatterns = Some (case excludePatterns options of None \<Rightarrow> [] | Some ps \<Rightarrow> ps),
      includePatterns = includePatterns options\<rparr>"

definition crossoriginOptions :: "SriOptions \<Rightarrow> SriOptions" where
  "crossoriginOptions options =
     \<lparr>ignoreMissingAssets = None,
      crossorigin = (case crossorigin options of Absent \<Rightarrow> Flag True | v \<Rightarrow> v),
      customCrossorigin = customCrossorigin options,
      excludeExternal = None, excludePatterns = None, includePatterns = None\<rparr>"

text \<open>
  The first loop of \<open>transformHTML\<close>. Its variables are \<open>lastIndex\<close> of the expression, the
  list \<open>changes\<close> and the store of the user's expressions, which the filter updates; \<open>html\<close>
  is only read. The loop ends when \<open>exec\<close> returns \<open>null\<close> or when \<open>calculateIntegrity\<close>
  throws; the result also gives \<open>lastIndex\<close> and the store as the loop leaves them. A loop
  that never ends has the value \<open>None\<close>.
\<close>

partial_function (option) scanLoop ::
  "platform \<Rightarrow> string \<Rightarrow> SriOptions \<Rightarrow> output_bundle \<Rightarrow> regex \<Rightarrow> int \<Rightarrow> string \<Rightarrow> string
    \<Rightarrow> nat \<Rightarrow> change list \<Rightarrow> regexp_store
    \<Rightarrow> (nat \<times> (error + change list) \<times> regexp_store) option" where
  "scanLoop pf base options bundle re endOffset htmlPath html lastIndex changes st =
     (case regex_exec re html lastIndex of
        (None, lastIndex') \<Rightarrow> Some (lastIndex', Inr changes, st)
      | (Some m, end) \<Rightarrow>
          (case shouldProcessUrl (urlGroup m) (filterOptions options) st of
             (process, st1) \<Rightarrow>
               if \<not> process then
                 scanLoop pf base options bundle re endOffset htmlPath html end changes st1
               else
                 (case snd (calculateIntegrity pf base (ignoreMissingAsset options) bundle htmlPath
                              (urlGroup m)) of
                    Inl e \<Rightarrow> Some (end, Inl e, st1)
                  | Inr None \<Rightarrow>
                      scanLoop pf base options bundle re endOffset htmlPath html end changes st1
                  | Inr (Some integrity') \<Rightarrow>
                      scanLoop pf base options bundle re endOffset htmlPath html end
                        (changes @
                         [\<lparr>integrity = integrity',
                           crossoriginAttr =
                             getCrossoriginAttribute (urlGroup m) (crossoriginOptions options),
                           insertPos = int end - endOffset\<rparr>])
                        st1)))"

declare scanLoop.simps [code]

text \<open>
  \<open>transformHTML\<close>: \<open>lastIndex\<close> is what an earlier use left in the expression; the function
  overwrites it with 0 before the first \<open>exec\<close>. The text is patched only after the scan has
  returned all changes.
\<close>

definition transformHTML ::
  "platform \<Rightarrow> string \<Rightarrow> SriOptions \<Rightarrow> output_bundle \<Rightarrow> regex \<Rightarrow> nat \<Rightarrow> int \<Rightarrow> string \<Rightarrow> string
    \<Rightarrow> regexp_store \<Rightarrow> (nat \<times> (error + string) \<times> regexp_store) option" where
  "transformHTML pf base options bundle re lastIndex endOffset htmlPath html st =
     (case scanLoop pf base options bundle re endOffset htmlPath html 0 [] st of
        None \<Rightarrow> None
      | Some (lastIndex', Inl e, st') \<Rightarrow> Some (lastIndex', Inl e, st')
      | Some (lastIndex', Inr changes, st') \<Rightarrow>
          Some (lastIndex', Inr (applyChanges html 0 changes), st'))"

text \<open>
  What holds of the list of changes while the scan runs with an expression whose matches have
  at least \<open>least\<close> characters: the positions ascend strictly and lie between
  \<open>least - endOffset\<close> and \<open>lastIndex - endOffset\<close>.
\<close>

definition scan_invariant :: "nat \<Rightarrow> int \<Rightarrow> nat \<Rightarrow> change list \<Rightarrow> bool" where
  "scan_invariant least endOffset lastIndex changes =
     (sorted_wrt (<) (map insertPos changes)
      \<and> list_all (\<lambda>c. int least - endOffset \<le> insertPos c
                      \<and> insertPos c \<le> int lastIndex - endOffset) changes)"

text \<open>
  Where a change comes from: a match of the expression in the text whose url resolves to some
  content; the change carries the digest of that content, the crossorigin attribute of the
  url, and the position \<open>endOffset\<close> before the end of the match.
\<close>

definition change_of_match ::
  "platform \<Rightarrow> string \<Rightarrow> SriOptions \<Rightarrow> output_bundle \<Rightarrow> regex \<Rightarrow> int \<Rightarrow> string \<Rightarrow> string
    \<Rightarrow> change \<Rightarrow> bool" where
  "change_of_match pf base options bundle re endOffset htmlPath html c =
     (\<exists>k m content. k \<le> length html \<and> re html k = Some m
        \<and> resolved_content pf base bundle htmlPath (urlGroup m) = Some content
        \<and> integrity c = ''sha384-'' @ base64 (sha384 pf content)
        \<and> crossoriginAttr c = getCrossoriginAttribute (urlGroup m) (crossoriginOptions options)
        \<and> insertPos c = int (index m + length (fullMatch m)) - endOffset)"

section \<open>The pass over the bundle\<close>

text \<open>The \<open>lastIndex\<close> fields of the three module-level expressions.\<close>

record regex_state =
  script_lastIndex :: nat
  css_lastIndex :: nat
  module_lastIndex :: nat

definition is_html_asset :: "bundle_item \<Rightarrow> bool" where
  "is_html_asset chunk =
     (case chunk of
        Chunk _ _ \<Rightarrow> False
      | Asset _ _ \<Rightarrow>
          endsWith (fileName chunk) ''.html'' \<or> endsWith (fileName chunk) ''.htm'')"

text \<open>The three passes over one HTML entry, each on the text the pass before it returned.\<close>

definition transformDocument ::
  "platform \<Rightarrow> string \<Rightarrow> SriOptions \<Rightarrow> output_bundle \<Rightarrow> regex_state \<Rightarrow> string \<Rightarrow> string
    \<Rightarrow> regexp_store \<Rightarrow> (regex_state \<times> (error + string) \<times> regexp_store) option" where
  "transformDocument pf base options bundle rs name html st =
     (case transformHTML pf base options bundle EXTERNAL_SCRIPT_RE (script_lastIndex rs) 10
             name html st of
        None \<Rightarrow> None
      | Some (l1, Inl e, st1) \<Rightarrow> Some (rs\<lparr>script_lastIndex := l1\<rparr>, Inl e, st1)
      | Some (l1, Inr html1, st1) \<Rightarrow>
          (case transformHTML pf base options bundle EXTERNAL_CSS_RE (css_lastIndex rs) 1
                  name html1 st1 of
             None \<Rightarrow> None
           | Some (l2, Inl e, st2) \<Rightarrow>
               Some (rs\<lparr>script_lastIndex := l1, css_lastIndex := l2\<rparr>, Inl e, st2)
           | Some (l2, Inr html2, st2) \<Rightarrow>
               (case transformHTML pf base options bundle EXTERNAL_MODULE_RE (module_lastIndex rs) 1
                       name html2 st2 of
                  None \<Rightarrow> None
                | Some (l3, r, st3) \<Rightarrow>
                    Some (\<lparr>script_lastIndex = l1, css_lastIndex = l2, module_lastIndex = l3\<rparr>,
                          r, st3))))"

text \<open>\<open>chunk.source.toString()\<close>: a string source is the text itself.\<close>

definition sourceToString :: "platform \<Rightarrow> source_value \<Rightarrow> string" where
  "sourceToString pf source = (case source of Text s \<Rightarrow> s | Binary b \<Rightarrow> decode pf b)"

text \<open>
  The loop of \<open>generateBundle\<close> over the entries of the bundle. \<open>done\<close> are the entries already
  visited, as the loop left them; the bundle that \<open>calculateIntegrity\<close> reads is the whole
  object, visited entries included. An error ends the loop and leaves the bundle as it is at
  that moment; the source of the current entry is assigned only after its three passes.
\<close>

fun generateBundle_loop ::
  "platform \<Rightarrow> string \<Rightarrow> SriOptions \<Rightarrow> output_bundle \<Rightarrow> output_bundle \<Rightarrow> regex_state
    \<Rightarrow> regexp_store \<Rightarrow> (output_bundle \<times> regex_state \<times> regexp_store \<times> error option) option" where
  "generateBundle_loop pf base options done [] rs st = Some (done, rs, st, None)"
| "generateBundle_loop pf base options done ((name, chunk) # todo) rs st =
     (if is_html_asset chunk then
        (case transformDocument pf base options (done @ (name, chunk) # todo) rs name
                (sourceToString pf (asset_source chunk)) st of
           None \<Rightarrow> None
         | Some (rs', Inl e, st') \<Rightarrow> Some (done @ (name, chunk) # todo, rs', st', Some e)
         | Some (rs', Inr html, st') \<Rightarrow>
             generateBundle_loop pf base options
               (done @ [(name, Asset (fileName chunk) (Text html))]) todo rs' st')
      else generateBundle_loop pf base options (done @ [(name, chunk)]) todo rs st)"

text \<open>
  The state the hook works on: the bundle, the \<open>lastIndex\<close> fields of the three tag
  expressions and the store of the user's expressions.
\<close>

type_synonym build_state = "output_bundle \<times> regex_state \<times> regexp_store"

definition generateBundle ::
  "platform \<Rightarrow> string \<Rightarrow> SriOptions \<Rightarrow> build_state \<Rightarrow> (build_state \<times> error option) option" where
  "generateBundle pf base options state =
     (case state of
        (bundle, rs, st) \<Rightarrow>
          (case generateBundle_loop pf base options [] bundle rs st of
             None \<Rightarrow> None
           | Some (bundle', rs', st', e) \<Rightarrow> Some ((bundle', rs', st'), e)))"

section \<open>Bundle hook adapter\<close>

text \<open>
  A hook handler takes the state the build has reached and returns the state it leaves, with
  the error it threw, if any; \<open>None\<close> is a handler that does not return.
\<close>

type_synonym 's handler = "'s \<Rightarrow> ('s \<times> error option) option"

text \<open>
  The \<open>generateBundle\<close> property of a plugin: absent, a function, or an object whose \<open>handler\<close>
  field may itself be missing.
\<close>

datatype 's hook = NoHook | FunctionHook "'s handler" | ObjectHook "'s handler option"

record 's plugin =
  pluginName :: string
  generateBundleHook :: "'s hook"

definition VITE_INTERNAL_ANALYSIS_PLUGIN :: string where
  "VITE_INTERNAL_ANALYSIS_PLUGIN = ''vite:build-import-analysis''"

text \<open>The wrapper both branches install: the old handler first, then \<open>afterHook\<close>.\<close>

definition run_after :: "'s handler \<Rightarrow> 's handler \<Rightarrow> 's handler" where
  "run_after fn afterHook =
     (\<lambda>s. case fn s of
             None \<Rightarrow> None
           | Some (s', Some e) \<Rightarrow> Some (s', Some e)
           | Some (s', None) \<Rightarrow> afterHook s')"

definition hijackGenerateBundle :: "'s plugin \<Rightarrow> 's handler \<Rightarrow> 's plugin" where
  "hijackGenerateBundle plugin afterHook =
     (let hook = generateBundleHook plugin;
          plugin1 =
            (case hook of
               ObjectHook (Some fn) \<Rightarrow>
                 plugin\<lparr>generateBundleHook := ObjectHook (Some (run_after fn afterHook))\<rparr>
             | _ \<Rightarrow> plugin)
      in case hook of
           FunctionHook fn \<Rightarrow> plugin1\<lparr>generateBundleHook := FunctionHook (run_after fn afterHook)\<rparr>
         | _ \<Rightarrow> plugin1)"

text \<open>
  \<open>configResolved\<close>: the first plugin of the configuration with the name of the host's analysis
  plugin is hijacked; without such a plugin the function throws.
\<close>

fun configResolved :: "'s plugin list \<Rightarrow> 's handler \<Rightarrow> error + 's plugin list" where
  "configResolved [] afterHook = Inl UnsupportedHost"
| "configResolved (p # ps) afterHook =
     (if pluginName p = VITE_INTERNAL_ANALYSIS_PLUGIN then Inr (hijackGenerateBundle p afterHook # ps)
      else (case configResolved ps afterHook of
              Inl e \<Rightarrow> Inl e
            | Inr ps' \<Rightarrow> Inr (p # ps')))"

text \<open>The plugin of the whole: \<open>configResolved\<close> with the pass over the bundle as \<open>afterHook\<close>.\<close>

definition sri ::
  "platform \<Rightarrow> string \<Rightarrow> SriOptions \<Rightarrow> build_state plugin list
    \<Rightarrow> error + build_state plugin list" where
  "sri pf base options plugins = configResolved plugins (generateBundle pf base options)"

text \<open>A sample page whose two script references resolve, and the changes its scan yields.\<close>

definition quoted :: "string \<Rightarrow> string" where
  "quoted s = [dquote] @ s @ [dquote]"

definition sample_page :: string where
  "sample_page =
     ''<script src='' @ quoted ''/assets/app.js'' @ ''></script><p><script src=''
       @ quoted ''https://cdn.example.com/a.css'' @ ''></script>''"

definition sample_scan :: "change list" where
  "sample_scan =
     [\<lparr>integrity = ''sha384-bGV0IA=='',
       crossoriginAttr = '' crossorigin='' @ quoted ''anonymous'',
       insertPos = 28\<rparr>,
      \<lparr>integrity = ''sha384-Ym9keQ=='',
       crossoriginAttr = '' crossorigin='' @ quoted ''anonymous'',
       insertPos = 84\<rparr>]"

text \<open>
  A page whose second script reference has no entry in the bundle, in a bundle of its own,
  and the options that ignore missing assets.
\<close>

definition broken_page :: string where
  "broken_page =
     ''<script src='' @ quoted ''/assets/app.js'' @ ''></script><script src=''
       @ quoted ''/assets/missing.js'' @ ''></script>''"

definition broken_bundle :: output_bundle where
  "broken_bundle =
     [(''assets/app.js'', Chunk ''assets/app.js'' ''let a''),
      (''index.html'', Asset ''index.html'' (Text broken_page))]"

definition ignoring_options :: SriOptions where
  "ignoring_options = no_options\<lparr>ignoreMissingAssets := Some True\<rparr>"

definition idle :: regex_state where
  "idle = \<lparr>script_lastIndex = 0, css_lastIndex = 0, module_lastIndex = 0\<rparr>"

definition first_change :: change where
  "first_change =
     \<lparr>integrity = ''sha384-bGV0IA=='',
      crossoriginAttr = '' crossorigin='' @ quoted ''anonymous'',
      insertPos = 28\<rparr>"

text \<open>A configuration whose analysis plugin has a hook object without a handler.\<close>

definition sample_plugins :: "build_state plugin list" where
  "sample_plugins =
     [\<lparr>pluginName = ''vite:css'', generateBundleHook = FunctionHook (\<lambda>s. Some (s, None))\<rparr>,
      \<lparr>pluginName = ''vite:build-import-analysis'', generateBundleHook = ObjectHook None\<rparr>]"

text \<open>
  Scenario A of the specification: a module script whose asset is in the bundle, and the line
  the pass is to produce for it (the stand-in hash of \<open>sample_platform\<close> in place of SHA-384).
\<close>

definition scenario_page :: string where
  "scenario_page =
     ''<script type='' @ quoted ''module'' @ '' src='' @ quoted ''/assets/app.js'' @ ''></script>''"

definition scenario_result :: string where
  "scenario_result =
     ''<script type='' @ quoted ''module'' @ '' src='' @ quoted ''/assets/app.js''
       @ '' integrity='' @ quoted ''sha384-bGV0IA=='' @ '' crossorigin='' @ quoted ''anonymous''
       @ ''></script>''"

text \<open>
  A filter whose only exclude entry is the global expression, and a page with two script
  references that the expression matches, both in the bundle.
\<close>

definition global_filter :: SriOptions where
  "global_filter = no_options\<lparr>excludePatterns := Some [RegExp 0 (js_suffix True)]\<rparr>"

definition two_scripts_page :: string where
  "two_scripts_page =
     ''<script src='' @ quoted ''/assets/app.js'' @ ''></script><script src=''
       @ quoted ''/assets/lib.js'' @ ''></script>''"

definition two_scripts_bundle :: output_bundle where
  "two_scripts_bundle =
     [(''assets/app.js'', Chunk ''assets/app.js'' ''let a''),
      (''assets/lib.js'', Chunk ''assets/lib.js'' ''let b''),
      (''index.html'', Asset ''index.html'' (Text two_scripts_page))]"

text \<open>
  A bundle whose chunk and whose asset hold the same code unit, U+00E9: once as the text of a
  chunk, once as the single byte of a binary source.
\<close>

definition accent_bundle :: output_bundle where
  "accent_bundle =
     [(''a.js'', Chunk ''a.js'' [CHR 0xE9]),
      (''a.bin'', Asset ''a.bin'' (Binary [233]))]"

text \<open>The first match of the script expression in \<open>sample_page\<close>.\<close>

definition app_match :: rmatch where
  "app_match =
     \<lparr>index = 0,
      fullMatch = ''<script src='' @ quoted ''/assets/app.js'' @ ''></script>'',
      beforeSrc = '' '', urlGroup = ''/assets/app.js'', afterSrc = ''''\<rparr>"

text \<open>
  A page whose only script reference is the relative url \<open>httpd/app.js\<close>, in a bundle that
  has no entry for it.
\<close>

definition httpd_page :: string where
  "httpd_page = ''<script src='' @ quoted ''httpd/app.js'' @ ''></script>''"

definition httpd_bundle :: output_bundle where
  "httpd_bundle = [(''index.html'', Asset ''index.html'' (Text httpd_page))]"

section \<open>Insertion-position law\<close>

lemma slice_index_nat: "slice_index len (int m) = min m len"
  by (simp add: slice_index_def)

lemma slice_prefix_append:
  "slice (pre @ rest) 0 (int (length pre + k)) = pre @ take k rest"
proof -
  have "slice_index (length (pre @ rest)) 0 = 0"
    by (simp add: slice_index_def)
  then show ?thesis
    unfolding slice_def Let_def slice_index_nat by (simp add: min_def)
qed

lemma slice_from_append:
  "k \<le> length rest \<Longrightarrow> slice_from (pre @ rest) (int (length pre + k)) = drop k rest"
  unfolding slice_from_def slice_index_nat by simp

lemma applyChanges_weave:
  assumes "sorted_wrt (<) (map insertPos cs)"
    and "\<forall>c \<in> set cs. int b \<le> insertPos c \<and> insertPos c \<le> int b + int (length rest)"
    and "int (length pre) = int b + offset"
  shows "applyChanges (pre @ rest) offset cs = pre @ weave rest b cs"
  using assms
proof (induction cs arbitrary: pre rest b offset)
  case Nil
  then show ?case by simp
next
  case (Cons c cs)
  define k where "k = nat (insertPos c) - b"
  have kb: "int b \<le> insertPos c" "insertPos c \<le> int b + int (length rest)"
    using Cons.prems(2) by auto
  have k_le: "k \<le> length rest" using kb by (simp add: k_def)
  have pos: "insertPos c + offset = int (length pre + k)"
    using kb Cons.prems(3) by (simp add: k_def)
  have s1: "slice (pre @ rest) 0 (insertPos c + offset) = pre @ take k rest"
    unfolding pos by (rule slice_prefix_append)
  have s2: "slice_from (pre @ rest) (insertPos c + offset) = drop k rest"
    unfolding pos by (rule slice_from_append [OF k_le])
  let ?pre' = "pre @ take k rest @ insertText c"
  have len: "int (length ?pre') = int (nat (insertPos c)) + (offset + int (length (insertText c)))"
    using kb k_le Cons.prems(3) by (simp add: k_def)
  have sorted: "sorted_wrt (<) (map insertPos cs)"
    using Cons.prems(1) by simp
  have range: "\<forall>d \<in> set cs. int (nat (insertPos c)) \<le> insertPos d
      \<and> insertPos d \<le> int (nat (insertPos c)) + int (length (drop k rest))"
  proof
    fix d assume d: "d \<in> set cs"
    have "insertPos c < insertPos d" using Cons.prems(1) d by auto
    moreover have "insertPos d \<le> int b + int (length rest)" using Cons.prems(2) d by auto
    ultimately show "int (nat (insertPos c)) \<le> insertPos d
      \<and> insertPos d \<le> int (nat (insertPos c)) + int (length (drop k rest))"
      using kb k_le by (simp add: k_def)
  qed
  have "applyChanges (pre @ rest) offset (c # cs)
      = applyChanges (?pre' @ drop k rest) (offset + int (length (insertText c))) cs"
    by (simp add: s1 s2)
  also have "\<dots> = ?pre' @ weave (drop k rest) (nat (insertPos c)) cs"
    by (rule Cons.IH [OF sorted range len])
  finally show ?case by (simp add: k_def)
qed

lemma weave_landing:
  assumes "sorted_wrt (<) (map insertPos cs)"
    and "\<forall>c \<in> set cs. int b \<le> insertPos c \<and> insertPos c \<le> int b + int (length rest)"
    and "i < length cs"
  shows "take (length (insertText (cs ! i))) (drop (landing cs i - b) (weave rest b cs))
      = insertText (cs ! i)"
  using assms
proof (induction cs arbitrary: rest b i)
  case Nil
  then show ?case by simp
next
  case (Cons c cs)
  define k where "k = nat (insertPos c) - b"
  have kb: "int b \<le> insertPos c" "insertPos c \<le> int b + int (length rest)"
    using Cons.prems(2) by auto
  have k_le: "k \<le> length rest" using kb by (simp add: k_def)
  show ?case
  proof (cases i)
    case 0
    then show ?thesis using k_le by (simp add: landing_def k_def)
  next
    case (Suc j)
    have j: "j < length cs" using Cons.prems(3) Suc by simp
    have sorted: "sorted_wrt (<) (map insertPos cs)"
      using Cons.prems(1) by simp
    have range: "\<forall>d \<in> set cs. int (nat (insertPos c)) \<le> insertPos d
        \<and> insertPos d \<le> int (nat (insertPos c)) + int (length (drop k rest))"
    proof
      fix d assume d: "d \<in> set cs"
      have "insertPos c < insertPos d" using Cons.prems(1) d by auto
      moreover have "insertPos d \<le> int b + int (length rest)" using Cons.prems(2) d by auto
      ultimately show "int (nat (insertPos c)) \<le> insertPos d
        \<and> insertPos d \<le> int (nat (insertPos c)) + int (length (drop k rest))"
        using kb k_le by (simp add: k_def)
    qed
    have "int (nat (insertPos c)) \<le> insertPos (cs ! j)"
      using range j by simp
    then have later: "nat (insertPos c) \<le> nat (insertPos (cs ! j))"
      by linarith
    have split: "landing (c # cs) i - b
        = length (take k rest @ insertText c) + (landing cs j - nat (insertPos c))"
      using later kb k_le Suc by (simp add: landing_def k_def)
    have "drop (landing (c # cs) i - b) (weave rest b (c # cs))
        = drop (landing cs j - nat (insertPos c)) (weave (drop k rest) (nat (insertPos c)) cs)"
    proof -
      have w: "weave rest b (c # cs)
          = (take k rest @ insertText c) @ weave (drop k rest) (nat (insertPos c)) cs"
        by (simp add: k_def)
      have skip: "drop (length A + n) (A @ B) = drop n B" for A B :: string and n
        by simp
      show ?thesis unfolding split w by (rule skip)
    qed
    then show ?thesis
      using Cons.IH [OF sorted range j] Suc by simp
  qed
qed

text \<open>
  Claim C1 (insertion-position law). For every HTML text and every list of changes whose
  insertion positions are positions of that text and strictly ascending, the patch loop, started
  with offset 0, leaves the inserted text of the \<open>i\<close>-th change in the output beginning at its
  original position plus the lengths of all inserted texts before it.
\<close>

theorem insertion_position_law:
  assumes "sorted_wrt (<) (map insertPos cs)"
    and "\<forall>c \<in> set cs. 0 \<le> insertPos c \<and> insertPos c \<le> int (length html)"
    and "i < length cs"
  shows "take (length (insertText (cs ! i))) (drop (landing cs i) (applyChanges html 0 cs))
      = insertText (cs ! i)"
proof -
  have "applyChanges ([] @ html) 0 cs = [] @ weave html 0 cs"
    by (rule applyChanges_weave) (use assms in simp_all)
  moreover have "take (length (insertText (cs ! i))) (drop (landing cs i - 0) (weave html 0 cs))
      = insertText (cs ! i)"
    by (rule weave_landing) (use assms in simp_all)
  ultimately show ?thesis by simp
qed

theorem insertion_position_law_witness:
  "sorted_wrt (<) (map insertPos sample_changes)
   \<and> list_all (\<lambda>c. 0 \<le> insertPos c \<and> insertPos c \<le> int (length sample_html)) sample_changes
   \<and> 1 < length sample_changes
   \<and> landing sample_changes 1 = 5 + 14
   \<and> take (length (insertText (sample_changes ! 1)))
         (drop (landing sample_changes 1) (applyChanges sample_html 0 sample_changes))
       = insertText (sample_changes ! 1)"
proof -
  have h1: "sorted_wrt (<) (map insertPos sample_changes)"
    by (simp add: sample_changes_def)
  have h2: "\<forall>c \<in> set sample_changes. 0 \<le> insertPos c \<and> insertPos c \<le> int (length sample_html)"
    by (simp add: sample_changes_def sample_html_def)
  have h3: "1 < length sample_changes"
    by (simp add: sample_changes_def)
  have h4: "landing sample_changes 1 = 5 + 14"
    by (simp add: landing_def sample_changes_def insertText_def)
  show ?thesis
    using h1 h2 h3 h4 insertion_position_law [OF h1 h2 h3] by (simp add: list_all_iff)
qed


section \<open>Filter: include and exclude patterns\<close>

lemma includes_str_iff: "includes_str s p \<longleftrightarrow> (\<exists>pre post. s = pre @ p @ post)"
proof (induction s)
  case Nil
  then show ?case by simp
next
  case (Cons c cs)
  show ?case
  proof
    assume "includes_str (c # cs) p"
    then consider "startsWith (c # cs) p" | "includes_str cs p" by auto
    then show "\<exists>pre post. c # cs = pre @ p @ post"
    proof cases
      case 1
      then have "c # cs = [] @ p @ drop (length p) (c # cs)"
        by (metis append_Nil append_take_drop_id startsWith_def)
      then show ?thesis by blast
    next
      case 2
      then obtain pre post where "cs = pre @ p @ post" using Cons.IH by blast
      then have "c # cs = (c # pre) @ p @ post" by simp
      then show ?thesis by blast
    qed
  next
    assume "\<exists>pre post. c # cs = pre @ p @ post"
    then obtain pre post where eq: "c # cs = pre @ p @ post" by blast
    show "includes_str (c # cs) p"
    proof (cases pre)
      case Nil
      then have "startsWith (c # cs) p" using eq by (simp add: startsWith_def)
      then show ?thesis by simp
    next
      case (Cons d pre')
      then have "cs = pre' @ p @ post" using eq by simp
      then have "includes_str cs p" using Cons.IH by blast
      then show ?thesis by simp
    qed
  qed
qed

lemma first_match_Some:
  "first_match f ns = Some r \<Longrightarrow> \<exists>n \<in> set ns. f n = Some r"
  by (induction ns) (auto split: option.splits)

lemma first_match_None:
  "first_match f ns = None \<Longrightarrow> n \<in> set ns \<Longrightarrow> f n = None"
  by (induction ns) (auto split: option.splits)

text \<open>A \<open>test\<close> that succeeds has found a match somewhere in the subject.\<close>

lemma regexp_test_true:
  assumes "fst (regexp_test re s l)"
  shows "list_ex (\<lambda>j. matchAt re s j \<noteq> None) [0 ..< Suc (length s)]"
proof (cases "\<not> isGlobal re \<and> \<not> isSticky re")
  case True
  then have "first_match (matchAt re s) [0 ..< Suc (length s)] \<noteq> None"
    using assms by (simp add: regexp_test_def)
  then obtain e where "first_match (matchAt re s) [0 ..< Suc (length s)] = Some e"
    by blast
  from first_match_Some [OF this] show ?thesis
    unfolding list_ex_iff by fastforce
next
  case False
  then have inside: "l \<le> length s"
    using assms by (auto simp: regexp_test_def split: if_splits)
  show ?thesis
  proof (cases "isSticky re")
    case True
    then obtain e where "matchAt re s l = Some e"
      using assms False inside by (auto simp: regexp_test_def split: option.splits)
    then show ?thesis
      using inside unfolding list_ex_iff by fastforce
  next
    case flag: False
    then obtain e where "first_match (matchAt re s) [l ..< Suc (length s)] = Some e"
      using assms False inside by (auto simp: regexp_test_def split: option.splits)
    from first_match_Some [OF this] show ?thesis
      unfolding list_ex_iff by fastforce
  qed
qed

text \<open>Without flags, \<open>test\<close> says whether there is a match, and leaves \<open>lastIndex\<close> alone.\<close>

lemma regexp_test_without_flags:
  assumes "\<not> isGlobal re" and "\<not> isSticky re"
  shows "regexp_test re s l
    = (list_ex (\<lambda>j. matchAt re s j \<noteq> None) [0 ..< Suc (length s)], l)"
proof -
  have "(first_match (matchAt re s) ns \<noteq> None) = list_ex (\<lambda>j. matchAt re s j \<noteq> None) ns" for ns
    by (induction ns) (auto split: option.splits)
  then show ?thesis
    using assms by (simp add: regexp_test_def)
qed

lemma matchesPatterns_true:
  "fst (matchesPatterns url ps st) \<Longrightarrow> \<exists>p \<in> set ps. entry_matches url p"
proof (induction ps arbitrary: st)
  case Nil
  then show ?case by simp
next
  case (Cons p ps)
  show ?case
  proof (cases p)
    case (Literal s)
    then show ?thesis
      using Cons by (cases "includes_str url s") auto
  next
    case (RegExp r re)
    obtain matched l where t: "regexp_test re url (st r) = (matched, l)"
      by (cases "regexp_test re url (st r)")
    show ?thesis
    proof (cases matched)
      case True
      then have "fst (regexp_test re url (st r))" using t by simp
      from regexp_test_true [OF this] show ?thesis
        using RegExp by simp
    next
      case False
      then have "fst (matchesPatterns url ps (st(r := l)))"
        using Cons.prems RegExp t by simp
      from Cons.IH [OF this] show ?thesis by auto
    qed
  qed
qed

text \<open>
  An entry that is a string, or an expression without the global and the sticky flag, and that
  matches the url, makes \<open>matchesPatterns\<close> succeed in every store.
\<close>

lemma matchesPatterns_without_flags:
  assumes "p \<in> set ps" and "entry_matches url p"
    and "case p of Literal s \<Rightarrow> True | RegExp r re \<Rightarrow> \<not> isGlobal re \<and> \<not> isSticky re"
  shows "fst (matchesPatterns url ps st)"
  using assms(1)
proof (induction ps arbitrary: st)
  case Nil
  then show ?case by simp
next
  case (Cons q qs)
  show ?case
  proof (cases q)
    case (Literal s)
    show ?thesis
    proof (cases "includes_str url s")
      case True
      then show ?thesis using Literal by simp
    next
      case False
      then have "p \<noteq> q" using assms(2) Literal by auto
      then have "p \<in> set qs" using Cons.prems by simp
      from Cons.IH [OF this] show ?thesis using Literal False by simp
    qed
  next
    case (RegExp r re)
    obtain matched l where t: "regexp_test re url (st r) = (matched, l)"
      by (cases "regexp_test re url (st r)")
    show ?thesis
    proof (cases matched)
      case True
      then show ?thesis using RegExp t by simp
    next
      case False
      have "p \<noteq> q"
      proof
        assume "p = q"
        then have "\<not> isGlobal re \<and> \<not> isSticky re"
          and "list_ex (\<lambda>j. matchAt re url j \<noteq> None) [0 ..< Suc (length url)]"
          using assms(2,3) RegExp by simp_all
        then have "fst (regexp_test re url (st r))"
          by (simp add: regexp_test_without_flags)
        then show False using t False by simp
      qed
      then have "p \<in> set qs" using Cons.prems by simp
      from Cons.IH [OF this] show ?thesis using RegExp t False by simp
    qed
  qed
qed

text \<open>
  Claim C4, as the code has it. The include filter is applied whenever \<open>includePatterns\<close> is
  set: a url that no entry matches is rejected (whether "no entry matches" is said of the
  entries themselves or of the tests the filter runs), so an empty list rejects every url.
  Only an unset \<open>includePatterns\<close> imposes no restriction; then a url is processed exactly when
  neither \<open>excludeExternal\<close> nor an exclude pattern rejects it.
\<close>

theorem include_filter_when_set:
  "(includePatterns options = Some ps \<longrightarrow> \<not> (\<exists>p \<in> set ps. entry_matches url p)
      \<longrightarrow> \<not> fst (shouldProcessUrl url options st))
   \<and> (includePatterns options = Some ps \<longrightarrow>
        \<not> fst (matchesPatterns url ps
              (snd (case excludePatterns options of
                      None \<Rightarrow> (False, st)
                    | Some patterns \<Rightarrow> matchesPatterns url patterns st)))
      \<longrightarrow> \<not> fst (shouldProcessUrl url options st))
   \<and> (includePatterns options = Some [] \<longrightarrow> \<not> fst (shouldProcessUrl url options st))
   \<and> (includePatterns options = None \<longrightarrow>
        fst (shouldProcessUrl url options st) =
          (\<not> (excludeExternal options = Some True \<and> isExternalUrl url)
           \<and> \<not> fst (case excludePatterns options of
                       None \<Rightarrow> (False, st)
                     | Some patterns \<Rightarrow> matchesPatterns url patterns st)))"
proof (intro conjI impI)
  assume inc: "includePatterns options = Some ps"
    and none: "\<not> (\<exists>p \<in> set ps. entry_matches url p)"
  have "\<not> fst (matchesPatterns url ps st')" for st'
    using none matchesPatterns_true by blast
  then show "\<not> fst (shouldProcessUrl url options st)"
    using inc by (auto simp: shouldProcessUrl_def split: option.splits prod.splits)
next
  assume "includePatterns options = Some ps"
    and "\<not> fst (matchesPatterns url ps
          (snd (case excludePatterns options of
                  None \<Rightarrow> (False, st)
                | Some patterns \<Rightarrow> matchesPatterns url patterns st)))"
  then show "\<not> fst (shouldProcessUrl url options st)"
    by (auto simp: shouldProcessUrl_def split: option.splits prod.splits)
next
  assume "includePatterns options = Some []"
  then show "\<not> fst (shouldProcessUrl url options st)"
    by (auto simp: shouldProcessUrl_def split: option.splits prod.splits)
next
  assume "includePatterns options = None"
  then show "fst (shouldProcessUrl url options st) =
      (\<not> (excludeExternal options = Some True \<and> isExternalUrl url)
       \<and> \<not> fst (case excludePatterns options of
                   None \<Rightarrow> (False, st)
                 | Some patterns \<Rightarrow> matchesPatterns url patterns st))"
    by (auto simp: shouldProcessUrl_def split: option.splits prod.splits)
qed

theorem include_filter_when_set_witness:
  "includePatterns sample_filter = Some [RegExp 0 (js_suffix False)]
   \<and> \<not> entry_matches ''/assets/app.css'' (RegExp 0 (js_suffix False))
   \<and> \<not> fst (shouldProcessUrl ''/assets/app.css'' sample_filter fresh)
   \<and> includePatterns (no_options\<lparr>includePatterns := Some []\<rparr>) = Some []
   \<and> \<not> fst (shouldProcessUrl ''/assets/app.js'' (no_options\<lparr>includePatterns := Some []\<rparr>) fresh)
   \<and> includePatterns no_options = None
   \<and> fst (shouldProcessUrl ''/assets/app.js'' no_options fresh)"
proof -
  have i1: "includePatterns sample_filter = Some [RegExp 0 (js_suffix False)]"
    by (simp add: sample_filter_def no_options_def)
  have n1: "\<not> entry_matches ''/assets/app.css'' (RegExp 0 (js_suffix False))"
    by code_simp
  then have n1': "\<not> (\<exists>p \<in> set [RegExp 0 (js_suffix False)]. entry_matches ''/assets/app.css'' p)"
    by simp
  have r1: "\<not> fst (shouldProcessUrl ''/assets/app.css'' sample_filter fresh)"
    using include_filter_when_set [of sample_filter "[RegExp 0 (js_suffix False)]"
        "''/assets/app.css''" fresh] i1 n1'
    by blast
  have i2: "includePatterns (no_options\<lparr>includePatterns := Some []\<rparr>) = Some []"
    by simp
  have r2: "\<not> fst (shouldProcessUrl ''/assets/app.js'' (no_options\<lparr>includePatterns := Some []\<rparr>)
      fresh)"
    using include_filter_when_set [of "no_options\<lparr>includePatterns := Some []\<rparr>" "[]"
        "''/assets/app.js''" fresh] i2
    by blast
  have i3: "includePatterns no_options = None"
    and e3: "excludeExternal no_options = None" "excludePatterns no_options = None"
    by (simp_all add: no_options_def)
  have r3: "fst (shouldProcessUrl ''/assets/app.js'' no_options fresh)"
    using include_filter_when_set [of no_options "[]" "''/assets/app.js''" fresh] i3 e3
    by simp
  from i1 n1 r1 i2 r2 i3 r3 show ?thesis by blast
qed

text \<open>
  The claim as the specification states it fails for an empty list: with no exclusion
  configured, \<open>includePatterns = []\<close> makes the filter reject a url that is processed when the
  option is unset.
\<close>

theorem include_filter_empty_list_counterexample:
  "fst (shouldProcessUrl ''/assets/app.js'' no_options fresh)
   \<and> \<not> fst (shouldProcessUrl ''/assets/app.js'' (no_options\<lparr>includePatterns := Some []\<rparr>) fresh)"
  by (simp add: shouldProcessUrl_def no_options_def)

text \<open>
  What holds of exclude precedence: a url that contains a string entry of \<open>excludePatterns\<close>,
  or that an entry without the global and the sticky flag matches, is never processed,
  whatever \<open>includePatterns\<close> holds and whatever the store.
\<close>

lemma exclude_precedence_without_flags:
  assumes "excludePatterns options = Some ps"
    and "p \<in> set ps" and "entry_matches url p"
    and "case p of Literal s \<Rightarrow> True | RegExp r re \<Rightarrow> \<not> isGlobal re \<and> \<not> isSticky re"
  shows "\<not> fst (shouldProcessUrl url options st)"
proof -
  have "fst (matchesPatterns url ps st)"
    using assms(2,3,4) by (rule matchesPatterns_without_flags)
  then show ?thesis
    using assms(1) by (auto simp: shouldProcessUrl_def split: prod.splits)
qed

text \<open>
  Claim C5 (exclude precedence) on the code. \<open>matchesPatterns\<close> calls \<open>test\<close> on the
  entry as it stands, and an expression with the global flag keeps the \<open>lastIndex\<close> of its
  last success (\<open>transformHTML\<close> resets \<open>lastIndex\<close> of its own expressions before it
  scans; the filter does not). With the global expression for the suffix \<open>.js\<close> as the only
  exclude entry, the expression matches both \<open>/assets/app.js\<close> and \<open>/assets/lib.js\<close>. The
  first url is rejected and leaves \<open>lastIndex\<close> at 14; the second is then processed, although
  an exclude entry matches it, and the scan of a page with the two references yields a change
  for the second one.
\<close>

theorem exclude_precedence_divergence:
  "entry_matches ''/assets/app.js'' (RegExp 0 (js_suffix True))
   \<and> entry_matches ''/assets/lib.js'' (RegExp 0 (js_suffix True))
   \<and> \<not> fst (shouldProcessUrl ''/assets/app.js'' global_filter fresh)
   \<and> snd (shouldProcessUrl ''/assets/app.js'' global_filter fresh) 0 = 14
   \<and> fst (shouldProcessUrl ''/assets/lib.js'' global_filter
            (snd (shouldProcessUrl ''/assets/app.js'' global_filter fresh)))
   \<and> (case scanLoop sample_platform ''/'' global_filter two_scripts_bundle EXTERNAL_SCRIPT_RE 10
              ''index.html'' two_scripts_page 0 [] fresh of
         Some (l, Inr changes, st) \<Rightarrow> map insertPos changes = [66]
       | _ \<Rightarrow> False)"
  by code_simp

section \<open>Crossorigin decision\<close>

text \<open>
  Claim C6 (crossorigin precedence). When a custom function is configured, its result for the
  url alone decides the attribute: \<open>null\<close> and \<open>false\<close> give none, \<open>true\<close> gives
  \<open>anonymous\<close>, a string is used as it is, and the static \<open>crossorigin\<close> option has no influence.
  Without a custom function the static option decides: \<open>false\<close> and \<open>null\<close> give no attribute,
  \<open>true\<close> gives \<open>anonymous\<close>, a string is used as it is, and an absent option gives
  \<open>anonymous\<close> for a network-absolute url and nothing otherwise.
\<close>

theorem crossorigin_precedence:
  "(customCrossorigin options = Some custom \<longrightarrow>
      getCrossoriginAttribute url options =
        (case custom url of
           ResultNull \<Rightarrow> ''''
         | ResultFlag b \<Rightarrow>
             if b then '' crossorigin='' @ [dquote] @ ''anonymous'' @ [dquote] else ''''
         | ResultNamed v \<Rightarrow> '' crossorigin='' @ [dquote] @ v @ [dquote])
      \<and> getCrossoriginAttribute url (options\<lparr>crossorigin := static\<rparr>)
          = getCrossoriginAttribute url options)
   \<and> (customCrossorigin options = None \<longrightarrow>
      getCrossoriginAttribute url options =
        (case crossorigin options of
           Flag b \<Rightarrow> if b then '' crossorigin='' @ [dquote] @ ''anonymous'' @ [dquote] else ''''
         | Null \<Rightarrow> ''''
         | Named v \<Rightarrow> '' crossorigin='' @ [dquote] @ v @ [dquote]
         | Absent \<Rightarrow>
             if isExternalUrl url then '' crossorigin='' @ [dquote] @ ''anonymous'' @ [dquote]
             else ''''))"
  by (simp add: getCrossoriginAttribute_def crossorigin_attr_def
      split: custom_result.split crossorigin_option.split bool.split)

theorem crossorigin_precedence_witness:
  "getCrossoriginAttribute ''/assets/app.js''
      (no_options\<lparr>crossorigin := Flag True, customCrossorigin := Some (\<lambda>url. ResultNull)\<rparr>) = ''''
   \<and> getCrossoriginAttribute ''/assets/app.js''
      (no_options\<lparr>crossorigin := Flag False,
                  customCrossorigin := Some (\<lambda>url. ResultNamed ''use-credentials'')\<rparr>)
       = '' crossorigin='' @ [dquote] @ ''use-credentials'' @ [dquote]
   \<and> getCrossoriginAttribute ''https://cdn.example.com/a.css'' no_options
       = '' crossorigin='' @ [dquote] @ ''anonymous'' @ [dquote]
   \<and> getCrossoriginAttribute ''/assets/app.js'' no_options = ''''"
  using crossorigin_precedence [of
      "no_options\<lparr>crossorigin := Flag True, customCrossorigin := Some (\<lambda>url. ResultNull)\<rparr>"
      "\<lambda>url. ResultNull" "''/assets/app.js''" Absent]
    crossorigin_precedence [of
      "no_options\<lparr>crossorigin := Flag False,
                   customCrossorigin := Some (\<lambda>url. ResultNamed ''use-credentials'')\<rparr>"
      "\<lambda>url. ResultNamed ''use-credentials''" "''/assets/app.js''" Absent]
    crossorigin_precedence [of no_options "\<lambda>url. ResultNull" "''https://cdn.example.com/a.css''" Absent]
    crossorigin_precedence [of no_options "\<lambda>url. ResultNull" "''/assets/app.js''" Absent]
  by (simp add: no_options_def isExternalUrl_def startsWith_def)


section \<open>Bundle keys\<close>

lemma replace_first_prefix:
  assumes "startsWith url base" and "base \<noteq> []"
  shows "replace_first url base [] = drop (length base) url"
proof (cases url)
  case Nil
  then show ?thesis using assms by (simp add: startsWith_def)
next
  case (Cons c cs)
  then show ?thesis using assms(1) by simp
qed

lemma resolve_collect_absolute:
  assumes "wd \<noteq> []" and "hd wd = CHR ''/''"
  shows "\<exists>p. resolve_collect [to, from, wd] [] = (p, True)"
  using assms by simp

lemma ns_skip:
  "seg = [] \<or> seg = ''.'' \<Longrightarrow>
     normalize_segments a res (seg # segs) = normalize_segments a res segs"
  by auto

lemma ns_up:
  "normalize_segments False res (''..'' # segs)
     = normalize_segments False (if res \<noteq> [] \<and> last res \<noteq> ''..'' then butlast res else res) segs"
  by simp

lemma ns_push:
  "plain_segment seg \<Longrightarrow>
     normalize_segments a res (seg # segs) = normalize_segments a (res @ [seg]) segs"
  by (simp add: plain_segment_def)

lemma normalize_segments_clean:
  assumes "list_all plain_segment res"
  shows "list_all plain_segment (normalize_segments False res segs)"
  using assms
proof (induction segs arbitrary: res)
  case Nil
  then show ?case by simp
next
  case (Cons seg segs)
  have shorter: "list_all plain_segment (butlast res)"
    using Cons.prems by (simp add: list_all_iff) (meson in_set_butlastD)
  consider "seg = [] \<or> seg = ''.''" | "seg = ''..''" | "plain_segment seg"
    unfolding plain_segment_def by blast
  then show ?case
  proof cases
    case 1
    show ?thesis
      unfolding ns_skip [OF 1] by (rule Cons.IH [OF Cons.prems])
  next
    case 2
    show ?thesis
      unfolding 2 ns_up using Cons.IH [OF Cons.prems] Cons.IH [OF shorter]
      by (simp split: if_splits)
  next
    case 3
    have "list_all plain_segment (res @ [seg])"
      using Cons.prems 3 by simp
    then have "list_all plain_segment (normalize_segments False (res @ [seg]) segs)"
      by (rule Cons.IH)
    then show ?thesis
      unfolding ns_push [OF 3] .
  qed
qed

lemma resolved_key_absolute:
  assumes "base = ''./'' \<or> base = ''''" and "wd \<noteq> []" and "hd wd = CHR ''/''"
  shows "\<exists>segs. getBundleKey wd base htmlPath url = ''/'' @ join_path segs
    \<and> list_all plain_segment segs"
proof -
  obtain p where p: "resolve_collect [url, htmlPath, wd] [] = (p, True)"
    using resolve_collect_absolute assms(2,3) by blast
  let ?segs = "normalize_segments False [] (split_path p)"
  have key: "getBundleKey wd base htmlPath url = ''/'' @ join_path ?segs"
    using assms(1) p by (auto simp: getBundleKey_def posix_resolve_def)
  have "list_all plain_segment ?segs"
    by (rule normalize_segments_clean) simp
  with key show ?thesis by blast
qed

text \<open>
  The branch for the base \<open>./\<close> or the empty base hands the document path and the url to
  \<open>path.posix.resolve\<close>, which puts the working directory in front: the key begins with \<open>/\<close>,
  and a bundle whose keys are relative to the output directory has no entry for it.
\<close>

lemma resolved_key_never_found:
  assumes "base = ''./'' \<or> base = ''''" and "wd \<noteq> []" and "hd wd = CHR ''/''"
    and "\<forall>k \<in> fst ` set bundle. k = [] \<or> hd k \<noteq> CHR ''/''"
  shows "map_of bundle (getBundleKey wd base htmlPath url) = None"
proof -
  obtain segs where "getBundleKey wd base htmlPath url = ''/'' @ join_path segs"
    using resolved_key_absolute [OF assms(1,2,3)] by blast
  then have "getBundleKey wd base htmlPath url \<notin> fst ` set bundle"
    using assms(4) by fastforce
  then show ?thesis
    by (simp add: map_of_eq_None_iff)
qed

text \<open>
  Claim C2, as the code has it by design. For every base other than \<open>./\<close> and the empty one,
  the root \<open>/\<close> included, the key of a url that begins with the base is the url without that
  prefix, and the key does not depend on the document path.
\<close>

theorem bundle_key_resolution:
  "(base \<noteq> ''./'' \<and> base \<noteq> '''' \<longrightarrow>
      (startsWith url base \<longrightarrow> getBundleKey wd base htmlPath url = drop (length base) url)
      \<and> getBundleKey wd base htmlPath url = getBundleKey wd base otherPath url)
   \<and> (startsWith url ''/'' \<longrightarrow> getBundleKey wd ''/'' htmlPath url = tl url)
   \<and> getBundleKey wd ''/'' htmlPath url = getBundleKey wd ''/'' otherPath url"
proof (intro conjI impI)
  assume "base \<noteq> ''./'' \<and> base \<noteq> ''''" and "startsWith url base"
  then show "getBundleKey wd base htmlPath url = drop (length base) url"
    by (simp add: getBundleKey_def replace_first_prefix)
next
  assume "base \<noteq> ''./'' \<and> base \<noteq> ''''"
  then show "getBundleKey wd base htmlPath url = getBundleKey wd base otherPath url"
    by (simp add: getBundleKey_def)
next
  assume "startsWith url ''/''"
  then have "replace_first url ''/'' [] = drop (length ''/'') url"
    by (rule replace_first_prefix) simp
  then show "getBundleKey wd ''/'' htmlPath url = tl url"
    by (simp add: getBundleKey_def drop_Suc)
next
  show "getBundleKey wd ''/'' htmlPath url = getBundleKey wd ''/'' otherPath url"
    by (simp add: getBundleKey_def)
qed

theorem bundle_key_resolution_witness:
  "startsWith ''/app/assets/app.js'' ''/app/''
   \<and> getBundleKey ''/work'' ''/app/'' ''index.html'' ''/app/assets/app.js'' = ''assets/app.js''
   \<and> getBundleKey ''/work'' ''/app/'' ''nested/index.html'' ''/app/assets/app.js''
     = ''assets/app.js''
   \<and> startsWith ''/assets/app.js'' ''/''
   \<and> getBundleKey ''/work'' ''/'' ''nested/index.html'' ''/assets/app.js'' = ''assets/app.js''"
proof -
  have s: "startsWith ''/app/assets/app.js'' ''/app/''"
    and s': "startsWith ''/assets/app.js'' ''/''"
    by (simp_all add: startsWith_def)
  have ne: "''/app/'' \<noteq> ''./'' \<and> ''/app/'' \<noteq> ''''"
    by simp
  note inst = bundle_key_resolution [of "''/app/''" "''/app/assets/app.js''" "''/work''"
      "''index.html''" "''nested/index.html''"]
  have k2: "getBundleKey ''/work'' ''/app/'' ''index.html'' ''/app/assets/app.js''
      = drop (length ''/app/'') ''/app/assets/app.js''"
    using s ne inst by blast
  have k3: "getBundleKey ''/work'' ''/app/'' ''index.html'' ''/app/assets/app.js''
      = getBundleKey ''/work'' ''/app/'' ''nested/index.html'' ''/app/assets/app.js''"
    using ne inst by blast
  have k4: "getBundleKey ''/work'' ''/'' ''nested/index.html'' ''/assets/app.js''
      = tl ''/assets/app.js''"
    using s' bundle_key_resolution [of "''/''" "''/assets/app.js''" "''/work''"
        "''nested/index.html''" "''index.html''"]
    by blast
  show ?thesis
    using s s' k2 k3 k4 by simp
qed

text \<open>
  As the specification states the claim, it fails: under the root base \<open>/\<close> the key is not
  resolved against the document path, and the key of a url is the same for documents in
  different directories, where resolution against the document path tells them apart.
\<close>

theorem bundle_key_counterexample:
  "getBundleKey ''/work'' ''/'' ''index.html'' ''app.js'' = ''app.js''
   \<and> getBundleKey ''/work'' ''/'' ''nested/index.html'' ''app.js'' = ''app.js''
   \<and> posix_resolve ''/work'' ''index.html'' ''app.js'' = ''/work/index.html/app.js''
   \<and> posix_resolve ''/work'' ''nested/index.html'' ''app.js'' = ''/work/nested/index.html/app.js''
   \<and> getBundleKey ''/work'' ''/'' ''nested/index.html'' ''/assets/app.js'' = ''assets/app.js''
   \<and> posix_resolve ''/work'' ''nested/index.html'' ''/assets/app.js'' = ''/assets/app.js''"
  by code_simp


section \<open>Resolver: network fetch or bundle lookup\<close>

lemma calculateIntegrity_effects:
  "fst (calculateIntegrity pf base ignoreMissing bundle htmlPath url) =
     (if startsWith url ''http'' then [NetworkFetch url]
      else [BundleLookup (getBundleKey (workdir pf) base htmlPath url)])"
  by (simp add: calculateIntegrity_def Let_def)

text \<open>
  Claim C3 on the code. The resolver does not decide by \<open>isExternalUrl\<close> but by the prefix
  \<open>http\<close> alone. A protocol-relative url, which \<open>isExternalUrl\<close> accepts, is looked up in the
  bundle and never fetched (here the lookup fails and the build error is raised); a relative
  url whose first segment begins with \<open>http\<close>, which \<open>isExternalUrl\<close> rejects, is fetched and
  never looked up.
\<close>

theorem resolver_dichotomy_divergence:
  "isExternalUrl ''//cdn.example.com/lib.js''
   \<and> calculateIntegrity sample_platform ''/'' False sample_bundle ''index.html''
        ''//cdn.example.com/lib.js''
      = ([BundleLookup ''/cdn.example.com/lib.js''], Inl (AssetNotFound ''//cdn.example.com/lib.js''))
   \<and> \<not> isExternalUrl ''httpd/app.js''
   \<and> fst (calculateIntegrity sample_platform ''/'' False
        ((''httpd/app.js'', Chunk ''httpd/app.js'' ''let b'') # sample_bundle) ''index.html''
        ''httpd/app.js'')
      = [NetworkFetch ''httpd/app.js'']"
  by code_simp


section \<open>Scanner: matches, termination and order\<close>


lemma match_Lit:
  assumes "match_items (Lit l # items) s = Some (n, gs)"
  shows "startsWith s l
    \<and> (\<exists>n'. match_items items (drop (length l) s) = Some (n', gs) \<and> n = length l + n')"
proof -
  have sw: "startsWith s l"
    using assms by (simp split: if_splits)
  then have "map_option (\<lambda>(n, groups). (length l + n, groups))
      (match_items items (drop (length l) s)) = Some (n, gs)"
    using assms by simp
  then obtain r where r: "match_items items (drop (length l) s) = Some r"
    and "(\<lambda>(n, groups). (length l + n, groups)) r = (n, gs)"
    by blast
  then show ?thesis using sw by (cases r) simp
qed


lemma match_Single:
  assumes "match_items (Single cls # items) s = Some (n, gs)"
  shows "\<exists>c cs n'. s = c # cs \<and> match_items items cs = Some (n', gs) \<and> n = Suc n'"
proof (cases s)
  case Nil
  with assms show ?thesis by simp
next
  case (Cons c cs)
  with assms have "map_option (\<lambda>(n, groups). (Suc n, groups)) (match_items items cs) = Some (n, gs)"
    by (simp split: if_splits)
  then obtain r where r: "match_items items cs = Some r"
    and "(\<lambda>(n, groups). (Suc n, groups)) r = (n, gs)"
    by blast
  then show ?thesis using Cons by (cases r) simp
qed

lemma match_Rep:
  assumes "match_items (Rep captured least cls # items) s = Some (n, gs)"
  shows "\<exists>k n' gs'. least \<le> k \<and> k \<le> length s
    \<and> match_items items (drop k s) = Some (n', gs') \<and> n = k + n'"
proof -
  let ?f = "\<lambda>k. map_option
               (\<lambda>(n, groups). (k + n, if captured then take k s # groups else groups))
               (match_items items (drop k s))"
  let ?ks = "rev [least ..< Suc (length (takeWhile (in_class cls) s))]"
  have "first_match ?f ?ks = Some (n, gs)"
    using assms by (simp only: match_items.simps)
  then obtain k where k: "k \<in> set ?ks" and fk: "?f k = Some (n, gs)"
    using first_match_Some [of ?f ?ks "(n, gs)"] by blast
  from fk obtain r where r: "match_items items (drop k s) = Some r"
    and eq: "(\<lambda>(n, groups). (k + n, if captured then take k s # groups else groups)) r = (n, gs)"
    by blast
  have "length (takeWhile (in_class cls) s) \<le> length s"
    by (rule length_takeWhile_le)
  with k have "least \<le> k" "k \<le> length s"
    by auto
  with r eq show ?thesis by (cases r) auto
qed

lemma startsWith_length:
  assumes "startsWith s l"
  shows "length l \<le> length s"
proof -
  have "length (take (length l) s) = length l"
    using assms by (simp only: startsWith_def)
  then show ?thesis by simp
qed


lemma match_items_bounds:
  "match_items items s = Some (n, gs) \<Longrightarrow> min_length items \<le> n \<and> n \<le> length s"
proof (induction items arbitrary: s n gs)
  case Nil
  then show ?case by simp
next
  case (Cons item items)
  show ?case
  proof (cases item)
    case (Lit l)
    from match_Lit [OF Cons.prems [unfolded Lit]] obtain n' where
      sw: "startsWith s l"
      and rest: "match_items items (drop (length l) s) = Some (n', gs)" and n: "n = length l + n'"
      by blast
    have "min_length items \<le> n'" "n' \<le> length s - length l"
      using Cons.IH [OF rest] by simp_all
    with startsWith_length [OF sw] n show ?thesis
      unfolding Lit by auto
  next
    case (Single cls)
    from match_Single [OF Cons.prems [unfolded Single]] obtain c cs n' where
      s: "s = c # cs" and rest: "match_items items cs = Some (n', gs)" and n: "n = Suc n'"
      by blast
    from Cons.IH [OF rest] s n show ?thesis
      unfolding Single by simp
  next
    case (Rep captured least cls)
    from match_Rep [OF Cons.prems [unfolded Rep]] obtain k n' gs' where
      k: "least \<le> k" "k \<le> length s"
      and rest: "match_items items (drop k s) = Some (n', gs')" and n: "n = k + n'"
      by blast
    have "min_length items \<le> n'" "n' \<le> length s - k"
      using Cons.IH [OF rest] by simp_all
    with k n show ?thesis
      unfolding Rep by auto
  qed
qed

lemma search_found:
  "search items rest i = Some (start, n, gs) \<Longrightarrow>
     i \<le> start \<and> start - i \<le> length rest
     \<and> match_items items (drop (start - i) rest) = Some (n, gs)"
proof (induction rest arbitrary: i)
  case Nil
  then show ?case by (auto split: option.splits)
next
  case (Cons c cs)
  show ?case
  proof (cases "match_items items (c # cs)")
    case None
    with Cons.prems have "search items cs (Suc i) = Some (start, n, gs)" by simp
    from Cons.IH [OF this] have
      later: "Suc i \<le> start" "start - Suc i \<le> length cs"
      and mt: "match_items items (drop (start - Suc i) cs) = Some (n, gs)"
      by auto
    from later(1) have "start - i = Suc (start - Suc i)" by arith
    with later mt show ?thesis by simp
  next
    case (Some r)
    with Cons.prems show ?thesis by (auto split: prod.splits)
  qed
qed

lemma compile_ok:
  assumes "0 < min_length items"
  shows "regex_ok (min_length items) (compile items)"
  unfolding regex_ok_def
proof (intro allI impI)
  fix s i m
  assume i: "i \<le> length s" and m: "compile items s i = Some m"
  from m obtain start n gs where
    found: "search items (drop i s) i = Some (start, n, gs)"
    and idx: "index m = start" and full: "fullMatch m = take n (drop start s)"
    by (auto simp: compile_def)
  from search_found [OF found] have
    start: "i \<le> start" "start - i \<le> length (drop i s)"
    and mt: "match_items items (drop (start - i) (drop i s)) = Some (n, gs)"
    by auto
  have "drop (start - i) (drop i s) = drop start s"
    using start(1) by simp
  with mt match_items_bounds have n: "min_length items \<le> n" "n \<le> length (drop start s)"
    by fastforce+
  then have len: "length (fullMatch m) = n"
    using full by simp
  show "i \<le> index m \<and> fullMatch m \<noteq> [] \<and> min_length items \<le> length (fullMatch m)
      \<and> index m + length (fullMatch m) \<le> length s"
    using start i n len idx assms by auto
qed

lemma regex_ok_mono: "regex_ok k re \<Longrightarrow> j \<le> k \<Longrightarrow> regex_ok j re"
  unfolding regex_ok_def by (meson le_trans)

lemma script_regex_ok: "regex_ok 10 EXTERNAL_SCRIPT_RE"
proof -
  have "min_length script_pattern = 22"
    by (simp add: script_pattern_def)
  with compile_ok [of script_pattern] have "regex_ok 22 EXTERNAL_SCRIPT_RE"
    by (simp add: EXTERNAL_SCRIPT_RE_def)
  then show ?thesis by (rule regex_ok_mono) simp
qed

lemma link_regex_ok: "regex_ok 1 (compile (link_pattern rel))"
proof -
  have "min_length (link_pattern rel) = 19 + length rel"
    by (simp add: link_pattern_def)
  with compile_ok [of "link_pattern rel"] have "regex_ok (19 + length rel) (compile (link_pattern rel))"
    by simp
  then show ?thesis by (rule regex_ok_mono) simp
qed


lemma regex_exec_cases:
  assumes "regex_ok least re" and "lastIndex \<le> length html"
  obtains (none) "regex_exec re html lastIndex = (None, 0)"
  | (found) m where "regex_exec re html lastIndex = (Some m, index m + length (fullMatch m))"
      and "lastIndex < index m + length (fullMatch m)"
      and "index m + length (fullMatch m) \<le> length html"
      and "least \<le> index m + length (fullMatch m)"
      and "re html lastIndex = Some m"
proof (cases "re html lastIndex")
  case None
  then have "regex_exec re html lastIndex = (None, 0)"
    using assms(2) by (simp add: regex_exec_def)
  then show ?thesis by (rule none)
next
  case (Some m)
  then have ex: "regex_exec re html lastIndex = (Some m, index m + length (fullMatch m))"
    using assms(2) by (simp add: regex_exec_def)
  have ok: "lastIndex \<le> index m" "fullMatch m \<noteq> []" "least \<le> length (fullMatch m)"
    "index m + length (fullMatch m) \<le> length html"
    using assms Some unfolding regex_ok_def by blast+
  from ok(2) have pos: "0 < length (fullMatch m)" by simp
  show ?thesis
  proof (rule found [OF ex])
    show "lastIndex < index m + length (fullMatch m)" using ok(1) pos by arith
    show "index m + length (fullMatch m) \<le> length html" by (rule ok(4))
    show "least \<le> index m + length (fullMatch m)" using ok(3) by arith
    show "re html lastIndex = Some m" by (rule Some)
  qed
qed

lemma scan_invariant_later:
  "scan_invariant least endOffset lastIndex changes \<Longrightarrow> lastIndex \<le> e
     \<Longrightarrow> scan_invariant least endOffset e changes"
  unfolding scan_invariant_def list_all_iff by fastforce

lemma scan_invariant_push:
  assumes "scan_invariant least endOffset lastIndex changes" and "lastIndex < e"
    and "least \<le> e" and "insertPos c = int e - endOffset"
  shows "scan_invariant least endOffset e (changes @ [c])"
proof -
  have old: "\<forall>d \<in> set changes. insertPos d < insertPos c"
    using assms unfolding scan_invariant_def list_all_iff by fastforce
  have "sorted_wrt (<) (map insertPos (changes @ [c]))"
    using assms(1) old unfolding scan_invariant_def by (simp add: sorted_wrt_append)
  moreover have "list_all (\<lambda>d. int least - endOffset \<le> insertPos d
      \<and> insertPos d \<le> int e - endOffset) (changes @ [c])"
    using assms old unfolding scan_invariant_def list_all_iff by fastforce
  ultimately show ?thesis unfolding scan_invariant_def by simp
qed

text \<open>The value \<open>calculateIntegrity\<close> returns is the digest of the resolved content.\<close>

lemma calculateIntegrity_resolved:
  "snd (calculateIntegrity pf base ignoreMissing bundle htmlPath u) = Inr (Some h) \<longleftrightarrow>
     (\<exists>content. resolved_content pf base bundle htmlPath u = Some content
        \<and> h = ''sha384-'' @ base64 (sha384 pf content))"
  by (auto simp: calculateIntegrity_def resolved_content_def digest_def update_bytes_def Let_def
      split: option.splits bundle_item.splits source_value.splits)

text \<open>One turn of the scan loop, case by case.\<close>

lemma scanLoop_done:
  assumes "regex_exec re html lastIndex = (None, l)"
  shows "scanLoop pf base options bundle re endOffset htmlPath html lastIndex changes st
    = Some (l, Inr changes, st)"
  by (subst scanLoop.simps) (simp add: assms)

lemma scanLoop_filtered:
  assumes "regex_exec re html lastIndex = (Some m, e)"
    and "shouldProcessUrl (urlGroup m) (filterOptions options) st = (False, st1)"
  shows "scanLoop pf base options bundle re endOffset htmlPath html lastIndex changes st
    = scanLoop pf base options bundle re endOffset htmlPath html e changes st1"
  by (subst scanLoop.simps) (simp add: assms)

lemma scanLoop_throws:
  assumes "regex_exec re html lastIndex = (Some m, e)"
    and "shouldProcessUrl (urlGroup m) (filterOptions options) st = (True, st1)"
    and "snd (calculateIntegrity pf base (ignoreMissingAsset options) bundle htmlPath (urlGroup m))
      = Inl err"
  shows "scanLoop pf base options bundle re endOffset htmlPath html lastIndex changes st
    = Some (e, Inl err, st1)"
  by (subst scanLoop.simps) (simp add: assms)

lemma scanLoop_skipped:
  assumes "regex_exec re html lastIndex = (Some m, e)"
    and "shouldProcessUrl (urlGroup m) (filterOptions options) st = (True, st1)"
    and "snd (calculateIntegrity pf base (ignoreMissingAsset options) bundle htmlPath (urlGroup m))
      = Inr None"
  shows "scanLoop pf base options bundle re endOffset htmlPath html lastIndex changes st
    = scanLoop pf base options bundle re endOffset htmlPath html e changes st1"
  by (subst scanLoop.simps) (simp add: assms)

lemma scanLoop_pushed:
  assumes "regex_exec re html lastIndex = (Some m, e)"
    and "shouldProcessUrl (urlGroup m) (filterOptions options) st = (True, st1)"
    and "snd (calculateIntegrity pf base (ignoreMissingAsset options) bundle htmlPath (urlGroup m))
      = Inr (Some h)"
  shows "scanLoop pf base options bundle re endOffset htmlPath html lastIndex changes st
    = scanLoop pf base options bundle re endOffset htmlPath html e
        (changes @
         [\<lparr>integrity = h,
           crossoriginAttr = getCrossoriginAttribute (urlGroup m) (crossoriginOptions options),
           insertPos = int e - endOffset\<rparr>])
        st1"
  by (subst scanLoop.simps) (simp add: assms)

text \<open>
  The scan returns, whatever the store; the changes it returns begin with the changes it was
  entered with, ascend, and each comes from a match whose url resolved.
\<close>

lemma scanLoop_returns:
  assumes re: "regex_ok least re"
  shows "lastIndex \<le> length html \<Longrightarrow> scan_invariant least endOffset lastIndex changes \<Longrightarrow>
    list_all (change_of_match pf base options bundle re endOffset htmlPath html) changes \<Longrightarrow>
    \<exists>l r st'. scanLoop pf base options bundle re endOffset htmlPath html lastIndex changes st
        = Some (l, r, st')
      \<and> l \<le> length html
      \<and> (\<forall>cs. r = Inr cs \<longrightarrow> l = 0 \<and> scan_invariant least endOffset (length html) cs
            \<and> list_all (change_of_match pf base options bundle re endOffset htmlPath html) cs
            \<and> take (length changes) cs = changes)"
proof (induction "length html - lastIndex" arbitrary: lastIndex changes st rule: less_induct)
  case less
  from re less.prems(1) show ?case
  proof (cases rule: regex_exec_cases)
    case none
    have "scan_invariant least endOffset (length html) changes"
      using less.prems(2,1) by (rule scan_invariant_later)
    then show ?thesis
      unfolding scanLoop_done [OF none] using less.prems(3) by simp
  next
    case (found m)
    let ?e = "index m + length (fullMatch m)"
    have smaller: "length html - ?e < length html - lastIndex"
      using found(2,3) by arith
    have keep: "scan_invariant least endOffset ?e changes"
      using scan_invariant_later [OF less.prems(2)] found(2) by simp
    note again = less.hyps [OF smaller found(3)]
    obtain process st1 where
      filter: "shouldProcessUrl (urlGroup m) (filterOptions options) st = (process, st1)"
      by (cases "shouldProcessUrl (urlGroup m) (filterOptions options) st")
    show ?thesis
    proof (cases process)
      case False
      with filter have reject:
        "shouldProcessUrl (urlGroup m) (filterOptions options) st = (False, st1)"
        by simp
      show ?thesis
        unfolding scanLoop_filtered [OF found(1) reject]
        by (rule again [OF keep less.prems(3)])
    next
      case True
      with filter have pass:
        "shouldProcessUrl (urlGroup m) (filterOptions options) st = (True, st1)"
        by simp
      show ?thesis
      proof (cases "snd (calculateIntegrity pf base (ignoreMissingAsset options) bundle htmlPath
          (urlGroup m))")
        case (Inl e)
        show ?thesis
          unfolding scanLoop_throws [OF found(1) pass Inl] using found(3) by simp
      next
        case (Inr v)
        show ?thesis
        proof (cases v)
          case None
          with Inr have skip:
            "snd (calculateIntegrity pf base (ignoreMissingAsset options) bundle htmlPath
              (urlGroup m)) = Inr None"
            by simp
          show ?thesis
            unfolding scanLoop_skipped [OF found(1) pass skip]
            by (rule again [OF keep less.prems(3)])
        next
          case (Some h)
          with Inr have got:
            "snd (calculateIntegrity pf base (ignoreMissingAsset options) bundle htmlPath
              (urlGroup m)) = Inr (Some h)"
            by simp
          let ?c = "\<lparr>integrity = h,
            crossoriginAttr = getCrossoriginAttribute (urlGroup m) (crossoriginOptions options),
            insertPos = int ?e - endOffset\<rparr>"
          have inv: "scan_invariant least endOffset ?e (changes @ [?c])"
            using less.prems(2) found(2,4) by (rule scan_invariant_push) simp
          obtain content where
            "resolved_content pf base bundle htmlPath (urlGroup m) = Some content"
            and "h = ''sha384-'' @ base64 (sha384 pf content)"
            using got calculateIntegrity_resolved by blast
          then have "change_of_match pf base options bundle re endOffset htmlPath html ?c"
            unfolding change_of_match_def using found(5) less.prems(1) by force
          then have from_matches:
            "list_all (change_of_match pf base options bundle re endOffset htmlPath html)
              (changes @ [?c])"
            using less.prems(3) by simp
          from again [OF inv from_matches, of st1] obtain l r st' where
            ret: "scanLoop pf base options bundle re endOffset htmlPath html ?e (changes @ [?c]) st1
              = Some (l, r, st')"
            and l: "l \<le> length html"
            and res: "\<forall>cs. r = Inr cs \<longrightarrow> l = 0 \<and> scan_invariant least endOffset (length html) cs
              \<and> list_all (change_of_match pf base options bundle re endOffset htmlPath html) cs
              \<and> take (length (changes @ [?c])) cs = changes @ [?c]"
            by blast
          have "take (length changes) cs = changes"
            if "take (length (changes @ [?c])) cs = changes @ [?c]" for cs
          proof -
            have "take (length changes) (take (length (changes @ [?c])) cs) = changes"
              unfolding that by simp
            then show ?thesis by (simp add: min_def)
          qed
          with res have res': "\<forall>cs. r = Inr cs \<longrightarrow> l = 0
              \<and> scan_invariant least endOffset (length html) cs
              \<and> list_all (change_of_match pf base options bundle re endOffset htmlPath html) cs
              \<and> take (length changes) cs = changes"
            by blast
          show ?thesis
            unfolding scanLoop_pushed [OF found(1) pass got]
            using ret l res' by blast
        qed
      qed
    qed
  qed
qed


section \<open>Order of the phases of a pass\<close>

lemma scan_then_patch:
  assumes "regex_ok least re"
  shows "\<exists>l x st'. scanLoop pf base options bundle re endOffset htmlPath html 0 [] st
        = Some (l, x, st')
      \<and> (\<forall>lastIndex. transformHTML pf base options bundle re lastIndex endOffset htmlPath html st
            = Some (l, (case x of
                          Inl e \<Rightarrow> Inl e
                        | Inr changes \<Rightarrow> Inr (applyChanges html 0 changes)), st'))
      \<and> (\<forall>changes. x = Inr changes \<longrightarrow>
            sorted_wrt (<) (map insertPos changes)
            \<and> list_all (\<lambda>c. int least - endOffset \<le> insertPos c
                  \<and> insertPos c \<le> int (length html) - endOffset) changes
            \<and> list_all (change_of_match pf base options bundle re endOffset htmlPath html)
                  changes)"
proof -
  have start: "scan_invariant least endOffset 0 []"
    by (simp add: scan_invariant_def)
  have none: "list_all (change_of_match pf base options bundle re endOffset htmlPath html) []"
    by simp
  from scanLoop_returns [OF assms _ start none, of st]
  obtain l x st' where
    scan: "scanLoop pf base options bundle re endOffset htmlPath html 0 [] st = Some (l, x, st')"
    and inv: "\<forall>cs. x = Inr cs \<longrightarrow> l = 0 \<and> scan_invariant least endOffset (length html) cs
      \<and> list_all (change_of_match pf base options bundle re endOffset htmlPath html) cs"
    by auto
  have pass: "transformHTML pf base options bundle re lastIndex endOffset htmlPath html st
      = Some (l, (case x of Inl e \<Rightarrow> Inl e | Inr changes \<Rightarrow> Inr (applyChanges html 0 changes)),
          st')"
    for lastIndex
    by (cases x) (simp_all add: transformHTML_def scan)
  have order: "sorted_wrt (<) (map insertPos changes)
      \<and> list_all (\<lambda>c. int least - endOffset \<le> insertPos c
            \<and> insertPos c \<le> int (length html) - endOffset) changes
      \<and> list_all (change_of_match pf base options bundle re endOffset htmlPath html) changes"
    if "x = Inr changes" for changes
    using inv that by (simp add: scan_invariant_def)
  from scan pass order show ?thesis by blast
qed

lemma pass_regex_ok:
  assumes "(re, endOffset) \<in>
    {(EXTERNAL_SCRIPT_RE, 10), (EXTERNAL_CSS_RE, 1), (EXTERNAL_MODULE_RE, 1 :: int)}"
  shows "\<exists>least. regex_ok least re \<and> int least = endOffset"
  using assms script_regex_ok link_regex_ok
  unfolding EXTERNAL_CSS_RE_def EXTERNAL_MODULE_RE_def by fastforce




section \<open>Integrity digest\<close>

text \<open>The lists of changes only grow at the end while the scan runs.\<close>

lemma scanLoop_extends:
  assumes re: "regex_ok least re"
  shows "lastIndex \<le> length html \<Longrightarrow>
    scanLoop pf base options bundle re endOffset htmlPath html lastIndex changes st
      = Some (l, Inr cs, st') \<Longrightarrow>
    take (length changes) cs = changes"
proof (induction "length html - lastIndex" arbitrary: lastIndex changes st rule: less_induct)
  case less
  from re less.prems(1) show ?case
  proof (cases rule: regex_exec_cases)
    case none
    then show ?thesis
      using less.prems(2) unfolding scanLoop_done [OF none] by simp
  next
    case (found m)
    let ?e = "index m + length (fullMatch m)"
    have smaller: "length html - ?e < length html - lastIndex"
      using found(2,3) by arith
    note again = less.hyps [OF smaller found(3)]
    obtain process st1 where
      filter: "shouldProcessUrl (urlGroup m) (filterOptions options) st = (process, st1)"
      by (cases "shouldProcessUrl (urlGroup m) (filterOptions options) st")
    show ?thesis
    proof (cases process)
      case False
      with filter have reject:
        "shouldProcessUrl (urlGroup m) (filterOptions options) st = (False, st1)"
        by simp
      show ?thesis
        using less.prems(2) unfolding scanLoop_filtered [OF found(1) reject] by (rule again)
    next
      case True
      with filter have pass:
        "shouldProcessUrl (urlGroup m) (filterOptions options) st = (True, st1)"
        by simp
      show ?thesis
      proof (cases "snd (calculateIntegrity pf base (ignoreMissingAsset options) bundle htmlPath
          (urlGroup m))")
        case (Inl e)
        show ?thesis
          using less.prems(2) unfolding scanLoop_throws [OF found(1) pass Inl] by simp
      next
        case (Inr v)
        show ?thesis
        proof (cases v)
          case None
          with Inr have skip:
            "snd (calculateIntegrity pf base (ignoreMissingAsset options) bundle htmlPath
              (urlGroup m)) = Inr None"
            by simp
          show ?thesis
            using less.prems(2) unfolding scanLoop_skipped [OF found(1) pass skip] by (rule again)
        next
          case (Some h)
          with Inr have got:
            "snd (calculateIntegrity pf base (ignoreMissingAsset options) bundle htmlPath
              (urlGroup m)) = Inr (Some h)"
            by simp
          let ?c = "\<lparr>integrity = h,
            crossoriginAttr = getCrossoriginAttribute (urlGroup m) (crossoriginOptions options),
            insertPos = int ?e - endOffset\<rparr>"
          have "take (length (changes @ [?c])) cs = changes @ [?c]"
            using less.prems(2) unfolding scanLoop_pushed [OF found(1) pass got] by (rule again)
          then have "take (length changes) (take (length (changes @ [?c])) cs) = changes"
            by simp
          then show ?thesis by (simp add: min_def)
        qed
      qed
    qed
  qed
qed

text \<open>
  A match that passes the filter and whose url resolves gives the next change of the list the
  scan returns, with the digest of the resolved content.
\<close>

lemma scanLoop_emits:
  assumes re: "regex_ok least re"
    and exec: "regex_exec re html lastIndex = (Some m, e)"
    and pass: "fst (shouldProcessUrl (urlGroup m) (filterOptions options) st)"
    and content: "resolved_content pf base bundle htmlPath (urlGroup m) = Some content"
    and scan: "scanLoop pf base options bundle re endOffset htmlPath html lastIndex changes st
      = Some (l, Inr cs, st')"
  shows "length changes < length cs
    \<and> cs ! length changes =
        \<lparr>integrity = ''sha384-'' @ base64 (sha384 pf content),
         crossoriginAttr = getCrossoriginAttribute (urlGroup m) (crossoriginOptions options),
         insertPos = int e - endOffset\<rparr>"
proof -
  let ?c = "\<lparr>integrity = ''sha384-'' @ base64 (sha384 pf content),
    crossoriginAttr = getCrossoriginAttribute (urlGroup m) (crossoriginOptions options),
    insertPos = int e - endOffset\<rparr>"
  have start: "lastIndex \<le> length html"
    using exec by (cases "length html < lastIndex") (simp_all add: regex_exec_def)
  from re start have e: "e \<le> length html"
    by (cases rule: regex_exec_cases) (use exec in simp_all)
  obtain st1 where filter:
    "shouldProcessUrl (urlGroup m) (filterOptions options) st = (True, st1)"
    using pass by (cases "shouldProcessUrl (urlGroup m) (filterOptions options) st") simp
  have got: "snd (calculateIntegrity pf base (ignoreMissingAsset options) bundle htmlPath
      (urlGroup m)) = Inr (Some (''sha384-'' @ base64 (sha384 pf content)))"
    using content calculateIntegrity_resolved by blast
  have "scanLoop pf base options bundle re endOffset htmlPath html e (changes @ [?c]) st1
      = Some (l, Inr cs, st')"
    using scan unfolding scanLoop_pushed [OF exec filter got] .
  from scanLoop_extends [OF re e this]
  have pre: "take (Suc (length changes)) cs = changes @ [?c]"
    by simp
  then have "length (take (Suc (length changes)) cs) = Suc (length changes)"
    by simp
  then have longer: "length changes < length cs"
    by (simp add: min_def split: if_splits)
  have "cs ! length changes = take (Suc (length changes)) cs ! length changes"
    by simp
  also have "\<dots> = ?c"
    unfolding pre by simp
  finally show ?thesis using longer by simp
qed

text \<open>
  Every change of a pass is written into the text the pass returns, as the attribute with the
  digest of the content that the url of a match resolved to.
\<close>

lemma transformHTML_emits:
  assumes re: "regex_ok least re" and off: "int least = endOffset"
    and scan: "scanLoop pf base options bundle re endOffset htmlPath html 0 [] st
      = Some (l, Inr changes, st')"
    and i: "i < length changes"
  shows "\<exists>k m content. k \<le> length html \<and> re html k = Some m
      \<and> resolved_content pf base bundle htmlPath (urlGroup m) = Some content
      \<and> integrity (changes ! i) = ''sha384-'' @ base64 (sha384 pf content)
      \<and> insertPos (changes ! i) = int (index m + length (fullMatch m)) - endOffset
      \<and> take (length ('' integrity='' @ [dquote] @ ''sha384-'' @ base64 (sha384 pf content)
                  @ [dquote] @ getCrossoriginAttribute (urlGroup m) (crossoriginOptions options)))
           (drop (landing changes i) (applyChanges html 0 changes))
         = '' integrity='' @ [dquote] @ ''sha384-'' @ base64 (sha384 pf content) @ [dquote]
             @ getCrossoriginAttribute (urlGroup m) (crossoriginOptions options)"
proof -
  from scan_then_patch [OF re, of pf base options "bundle" endOffset htmlPath html st] scan
  have sorted: "sorted_wrt (<) (map insertPos changes)"
    and range0: "list_all (\<lambda>c. int least - endOffset \<le> insertPos c
        \<and> insertPos c \<le> int (length html) - endOffset) changes"
    and origin: "list_all (change_of_match pf base options bundle re endOffset htmlPath html)
        changes"
    by auto
  have range: "\<forall>c \<in> set changes. int 0 \<le> insertPos c \<and> insertPos c \<le> int 0 + int (length html)"
    using range0 off unfolding list_all_iff by fastforce
  have "applyChanges ([] @ html) 0 changes = [] @ weave html 0 changes"
    using sorted range by (rule applyChanges_weave) simp
  moreover have "take (length (insertText (changes ! i)))
      (drop (landing changes i - 0) (weave html 0 changes)) = insertText (changes ! i)"
    using sorted range i by (rule weave_landing)
  ultimately have lands: "take (length (insertText (changes ! i)))
      (drop (landing changes i) (applyChanges html 0 changes)) = insertText (changes ! i)"
    by simp
  from origin i have "change_of_match pf base options bundle re endOffset htmlPath html
      (changes ! i)"
    by (simp add: list_all_length)
  then obtain k m content where k: "k \<le> length html" and m: "re html k = Some m"
    and content: "resolved_content pf base bundle htmlPath (urlGroup m) = Some content"
    and hash: "integrity (changes ! i) = ''sha384-'' @ base64 (sha384 pf content)"
    and attr: "crossoriginAttr (changes ! i)
      = getCrossoriginAttribute (urlGroup m) (crossoriginOptions options)"
    and pos: "insertPos (changes ! i) = int (index m + length (fullMatch m)) - endOffset"
    unfolding change_of_match_def by blast
  have "insertText (changes ! i)
      = '' integrity='' @ [dquote] @ ''sha384-'' @ base64 (sha384 pf content) @ [dquote]
          @ getCrossoriginAttribute (urlGroup m) (crossoriginOptions options)"
    unfolding insertText_def hash attr by simp
  with lands k m content hash pos show ?thesis
    by metis
qed

text \<open>The content a reference resolves to, for each kind of bundle entry.\<close>

lemma resolved_content_cases:
  "(startsWith url ''http'' \<longrightarrow> resolved_content pf base bundle htmlPath url = fetch pf url)
   \<and> (\<not> startsWith url ''http'' \<longrightarrow>
        map_of bundle (getBundleKey (workdir pf) base htmlPath url) = Some (Chunk name code) \<longrightarrow>
        resolved_content pf base bundle htmlPath url = Some (utf8 code))
   \<and> (\<not> startsWith url ''http'' \<longrightarrow>
        map_of bundle (getBundleKey (workdir pf) base htmlPath url)
          = Some (Asset name (Binary raw)) \<longrightarrow>
        resolved_content pf base bundle htmlPath url = Some raw)
   \<and> (\<not> startsWith url ''http'' \<longrightarrow>
        map_of bundle (getBundleKey (workdir pf) base htmlPath url)
          = Some (Asset name (Text code)) \<longrightarrow>
        resolved_content pf base bundle htmlPath url = Some (utf8 code))"
  by (simp add: resolved_content_def update_bytes_def)


text \<open>
  Claim C7 (digest format). In each of the three passes of a document: a matched reference
  that passes the filter and whose url resolves to the content \<open>C\<close> gives the next change of
  the scan, and its integrity value is \<open>sha384-\<close> followed by the base64 encoding of the
  SHA-384 digest of \<open>C\<close>; every change of the scan is such a change, and the pass writes it
  into the text it returns, at the landing position of the change, as the attribute
  \<open>integrity\<close> with that value between double quotes, followed by the crossorigin attribute
  of the url. The content \<open>C\<close> is the fetched body for a fetched url, the UTF-8 encoding of
  the compiled code when the bundle entry is a chunk, the bytes of the source when it is an
  asset with a binary source, and the UTF-8 encoding of the source when it is an asset with a
  string source.
\<close>

theorem integrity_digest_format:
  assumes "(re, endOffset) \<in>
    {(EXTERNAL_SCRIPT_RE, 10), (EXTERNAL_CSS_RE, 1), (EXTERNAL_MODULE_RE, 1)}"
  shows "(regex_exec re html lastIndex = (Some m, e) \<longrightarrow>
          fst (shouldProcessUrl (urlGroup m) (filterOptions options) st) \<longrightarrow>
          resolved_content pf base entries htmlPath (urlGroup m) = Some content \<longrightarrow>
          scanLoop pf base options entries re endOffset htmlPath html lastIndex changes st
            = Some (l, Inr cs, st') \<longrightarrow>
          length changes < length cs
          \<and> cs ! length changes =
              \<lparr>integrity = ''sha384-'' @ base64 (sha384 pf content),
               crossoriginAttr = getCrossoriginAttribute (urlGroup m) (crossoriginOptions options),
               insertPos = int e - endOffset\<rparr>)
     \<and> (scanLoop pf base options entries re endOffset htmlPath html 0 [] st0
            = Some (l0, Inr emitted, st1) \<longrightarrow>
          i < length emitted \<longrightarrow>
          transformHTML pf base options entries re left endOffset htmlPath html st0
            = Some (l0, Inr (applyChanges html 0 emitted), st1)
          \<and> (\<exists>k m content. k \<le> length html \<and> re html k = Some m
                \<and> resolved_content pf base entries htmlPath (urlGroup m) = Some content
                \<and> integrity (emitted ! i) = ''sha384-'' @ base64 (sha384 pf content)
                \<and> insertPos (emitted ! i) = int (index m + length (fullMatch m)) - endOffset
                \<and> take (length ('' integrity='' @ [dquote] @ ''sha384-''
                            @ base64 (sha384 pf content) @ [dquote]
                            @ getCrossoriginAttribute (urlGroup m) (crossoriginOptions options)))
                     (drop (landing emitted i) (applyChanges html 0 emitted))
                   = '' integrity='' @ [dquote] @ ''sha384-'' @ base64 (sha384 pf content)
                       @ [dquote]
                       @ getCrossoriginAttribute (urlGroup m) (crossoriginOptions options)))
     \<and> (startsWith url ''http'' \<longrightarrow> resolved_content pf base entries htmlPath url = fetch pf url)
     \<and> (\<not> startsWith url ''http'' \<longrightarrow>
          map_of entries (getBundleKey (workdir pf) base htmlPath url) = Some (Chunk name code) \<longrightarrow>
          resolved_content pf base entries htmlPath url = Some (utf8 code))
     \<and> (\<not> startsWith url ''http'' \<longrightarrow>
          map_of entries (getBundleKey (workdir pf) base htmlPath url)
            = Some (Asset name (Binary raw)) \<longrightarrow>
          resolved_content pf base entries htmlPath url = Some raw)
     \<and> (\<not> startsWith url ''http'' \<longrightarrow>
          map_of entries (getBundleKey (workdir pf) base htmlPath url)
            = Some (Asset name (Text code)) \<longrightarrow>
          resolved_content pf base entries htmlPath url = Some (utf8 code))"
proof -
  from pass_regex_ok [OF assms] obtain least where
    ok: "regex_ok least re" and off: "int least = endOffset"
    by blast
  have next_change: "length changes < length cs
      \<and> cs ! length changes =
          \<lparr>integrity = ''sha384-'' @ base64 (sha384 pf content),
           crossoriginAttr = getCrossoriginAttribute (urlGroup m) (crossoriginOptions options),
           insertPos = int e - endOffset\<rparr>"
    if "regex_exec re html lastIndex = (Some m, e)"
      and "fst (shouldProcessUrl (urlGroup m) (filterOptions options) st)"
      and "resolved_content pf base entries htmlPath (urlGroup m) = Some content"
      and "scanLoop pf base options entries re endOffset htmlPath html lastIndex changes st
        = Some (l, Inr cs, st')"
    using that by (rule scanLoop_emits [OF ok])
  have written: "transformHTML pf base options entries re left endOffset htmlPath html st0
        = Some (l0, Inr (applyChanges html 0 emitted), st1)
      \<and> (\<exists>k m content. k \<le> length html \<and> re html k = Some m
            \<and> resolved_content pf base entries htmlPath (urlGroup m) = Some content
            \<and> integrity (emitted ! i) = ''sha384-'' @ base64 (sha384 pf content)
            \<and> insertPos (emitted ! i) = int (index m + length (fullMatch m)) - endOffset
            \<and> take (length ('' integrity='' @ [dquote] @ ''sha384-''
                        @ base64 (sha384 pf content) @ [dquote]
                        @ getCrossoriginAttribute (urlGroup m) (crossoriginOptions options)))
                 (drop (landing emitted i) (applyChanges html 0 emitted))
               = '' integrity='' @ [dquote] @ ''sha384-'' @ base64 (sha384 pf content)
                   @ [dquote]
                   @ getCrossoriginAttribute (urlGroup m) (crossoriginOptions options))"
    if scan: "scanLoop pf base options entries re endOffset htmlPath html 0 [] st0
        = Some (l0, Inr emitted, st1)"
      and i: "i < length emitted"
  proof
    show "transformHTML pf base options entries re left endOffset htmlPath html st0
        = Some (l0, Inr (applyChanges html 0 emitted), st1)"
      by (simp add: transformHTML_def scan)
  qed (rule transformHTML_emits [OF ok off scan i])
  from next_change written
    resolved_content_cases [of url pf base entries htmlPath name code raw]
  show ?thesis by blast
qed


theorem integrity_digest_format_witness:
  "regex_exec EXTERNAL_SCRIPT_RE sample_page 0 = (Some app_match, 38)
   \<and> fst (shouldProcessUrl (urlGroup app_match) (filterOptions no_options) fresh)
   \<and> resolved_content sample_platform ''/'' sample_bundle ''index.html'' (urlGroup app_match)
       = Some (utf8 ''let a'')
   \<and> fst (snd (the (scanLoop sample_platform ''/'' no_options sample_bundle EXTERNAL_SCRIPT_RE 10
         ''index.html'' sample_page 0 [] fresh))) = Inr sample_scan
   \<and> sample_scan ! 0 =
         \<lparr>integrity = ''sha384-'' @ base64 (sha384 sample_platform (utf8 ''let a'')),
          crossoriginAttr =
            getCrossoriginAttribute (urlGroup app_match) (crossoriginOptions no_options),
          insertPos = 28\<rparr>
   \<and> fst (snd (the (transformHTML sample_platform ''/'' no_options sample_bundle
         EXTERNAL_SCRIPT_RE 0 10 ''index.html'' sample_page fresh)))
       = Inr (applyChanges sample_page 0 sample_scan)
   \<and> (\<exists>k m content. k \<le> length sample_page \<and> EXTERNAL_SCRIPT_RE sample_page k = Some m
         \<and> resolved_content sample_platform ''/'' sample_bundle ''index.html'' (urlGroup m)
             = Some content
         \<and> integrity (sample_scan ! 0) = ''sha384-'' @ base64 (sha384 sample_platform content)
         \<and> take (length ('' integrity='' @ [dquote] @ ''sha384-''
                     @ base64 (sha384 sample_platform content) @ [dquote]
                     @ getCrossoriginAttribute (urlGroup m) (crossoriginOptions no_options)))
              (drop (landing sample_scan 0) (applyChanges sample_page 0 sample_scan))
            = '' integrity='' @ [dquote] @ ''sha384-''
                @ base64 (sha384 sample_platform content) @ [dquote]
                @ getCrossoriginAttribute (urlGroup m) (crossoriginOptions no_options))
   \<and> take 52 (drop (landing sample_scan 0) (applyChanges sample_page 0 sample_scan))
       = '' integrity='' @ quoted ''sha384-bGV0IA=='' @ '' crossorigin='' @ quoted ''anonymous''
   \<and> resolved_content sample_platform ''/'' accent_bundle ''index.html'' ''/a.js''
       = Some [195, 169]
   \<and> resolved_content sample_platform ''/'' accent_bundle ''index.html'' ''/a.bin''
       = Some [233]"
proof -
  have passes: "(EXTERNAL_SCRIPT_RE, 10) \<in>
    {(EXTERNAL_SCRIPT_RE, 10), (EXTERNAL_CSS_RE, 1), (EXTERNAL_MODULE_RE, 1 :: int)}"
    by simp
  have exec: "regex_exec EXTERNAL_SCRIPT_RE sample_page 0 = (Some app_match, 38)"
    by code_simp
  have pass: "fst (shouldProcessUrl (urlGroup app_match) (filterOptions no_options) fresh)"
    by code_simp
  have content: "resolved_content sample_platform ''/'' sample_bundle ''index.html''
      (urlGroup app_match) = Some (utf8 ''let a'')"
    by code_simp
  have "(case scanLoop sample_platform ''/'' no_options sample_bundle EXTERNAL_SCRIPT_RE 10
      ''index.html'' sample_page 0 [] fresh of
        Some (l, x, st') \<Rightarrow> l = 0 \<and> x = Inr sample_scan | None \<Rightarrow> False)"
    by code_simp
  then obtain st' where scan: "scanLoop sample_platform ''/'' no_options sample_bundle
      EXTERNAL_SCRIPT_RE 10 ''index.html'' sample_page 0 [] fresh = Some (0, Inr sample_scan, st')"
    by (auto split: option.splits)
  have i: "0 < length sample_scan"
    by (simp add: sample_scan_def)
  have key1: "map_of accent_bundle (getBundleKey (workdir sample_platform) ''/'' ''index.html''
      ''/a.js'') = Some (Chunk ''a.js'' [CHR 0xE9])"
    by code_simp
  have key2: "map_of accent_bundle (getBundleKey (workdir sample_platform) ''/'' ''index.html''
      ''/a.bin'') = Some (Asset ''a.bin'' (Binary [233]))"
    by code_simp
  have local1: "\<not> startsWith ''/a.js'' ''http''" and local2: "\<not> startsWith ''/a.bin'' ''http''"
    by (simp_all add: startsWith_def)
  have enc: "utf8 [CHR 0xE9] = [195, 169]"
    by code_simp
  have text52: "take 52 (drop (landing sample_scan 0) (applyChanges sample_page 0 sample_scan))
      = '' integrity='' @ quoted ''sha384-bGV0IA=='' @ '' crossorigin='' @ quoted ''anonymous''"
    by code_simp
  note page = integrity_digest_format [OF passes, where html = sample_page and lastIndex = 0
      and m = app_match and e = 38 and options = no_options and st = fresh
      and pf = sample_platform and base = "''/''" and entries = sample_bundle
      and htmlPath = "''index.html''" and content = "utf8 ''let a''" and changes = "[]"
      and l = 0 and cs = sample_scan and st' = st' and ?st0.0 = fresh and ?l0.0 = 0
      and emitted = sample_scan and ?st1.0 = st' and i = 0 and left = 0]
  from page exec pass content scan have first: "sample_scan ! 0 =
      \<lparr>integrity = ''sha384-'' @ base64 (sha384 sample_platform (utf8 ''let a'')),
       crossoriginAttr =
         getCrossoriginAttribute (urlGroup app_match) (crossoriginOptions no_options),
       insertPos = 28\<rparr>"
    by simp
  from page scan i have pass0: "transformHTML sample_platform ''/'' no_options sample_bundle
      EXTERNAL_SCRIPT_RE 0 10 ''index.html'' sample_page fresh
      = Some (0, Inr (applyChanges sample_page 0 sample_scan), st')"
    by blast
  from page scan i have written: "\<exists>k m content. k \<le> length sample_page
      \<and> EXTERNAL_SCRIPT_RE sample_page k = Some m
      \<and> resolved_content sample_platform ''/'' sample_bundle ''index.html'' (urlGroup m)
          = Some content
      \<and> integrity (sample_scan ! 0) = ''sha384-'' @ base64 (sha384 sample_platform content)
      \<and> take (length ('' integrity='' @ [dquote] @ ''sha384-''
                  @ base64 (sha384 sample_platform content) @ [dquote]
                  @ getCrossoriginAttribute (urlGroup m) (crossoriginOptions no_options)))
           (drop (landing sample_scan 0) (applyChanges sample_page 0 sample_scan))
         = '' integrity='' @ [dquote] @ ''sha384-''
             @ base64 (sha384 sample_platform content) @ [dquote]
             @ getCrossoriginAttribute (urlGroup m) (crossoriginOptions no_options)"
    by blast
  from integrity_digest_format [OF passes, where pf = sample_platform and base = "''/''"
      and entries = accent_bundle and htmlPath = "''index.html''" and url = "''/a.js''"
      and name = "''a.js''" and code = "[CHR 0xE9]"] local1 key1 enc
  have chunk: "resolved_content sample_platform ''/'' accent_bundle ''index.html'' ''/a.js''
      = Some [195, 169]"
    by simp
  from integrity_digest_format [OF passes, where pf = sample_platform and base = "''/''"
      and entries = accent_bundle and htmlPath = "''index.html''" and url = "''/a.bin''"
      and name = "''a.bin''" and raw = "[233]"] local2 key2
  have asset: "resolved_content sample_platform ''/'' accent_bundle ''index.html'' ''/a.bin''
      = Some [233]"
    by simp
  from exec pass content scan first pass0 written text52 chunk asset show ?thesis
    by simp
qed


section \<open>Missing assets\<close>

lemma calculateIntegrity_missing:
  assumes "\<not> startsWith u ''http''"
    and "map_of bundle (getBundleKey (workdir pf) base htmlPath u) = None"
  shows "snd (calculateIntegrity pf base ignoreMissing bundle htmlPath u)
    = (if ignoreMissing then Inr None else Inl (AssetNotFound u))"
  using assms by (simp add: calculateIntegrity_def Let_def)

lemma transformHTML_throws:
  assumes "scanLoop pf base options bundle re endOffset htmlPath html 0 [] st
    = Some (l, Inl err, st')"
  shows "transformHTML pf base options bundle re lastIndex endOffset htmlPath html st
    = Some (l, Inl err, st')"
  by (simp add: transformHTML_def assms)

lemma transformDocument_throws:
  assumes "transformHTML pf base options bundle EXTERNAL_SCRIPT_RE (script_lastIndex rs) 10
        name html st = Some (l1, Inl err, st')
    \<or> (\<exists>html1 st1. transformHTML pf base options bundle EXTERNAL_SCRIPT_RE (script_lastIndex rs)
            10 name html st = Some (l1, Inr html1, st1)
        \<and> (transformHTML pf base options bundle EXTERNAL_CSS_RE (css_lastIndex rs) 1
              name html1 st1 = Some (l2, Inl err, st')
           \<or> (\<exists>html2 st2. transformHTML pf base options bundle EXTERNAL_CSS_RE (css_lastIndex rs)
                   1 name html1 st1 = Some (l2, Inr html2, st2)
               \<and> transformHTML pf base options bundle EXTERNAL_MODULE_RE (module_lastIndex rs) 1
                   name html2 st2 = Some (l3, Inl err, st'))))"
  shows "\<exists>rs'. transformDocument pf base options bundle rs name html st
    = Some (rs', Inl err, st')"
  using assms by (auto simp: transformDocument_def)

lemma generateBundle_loop_throws:
  assumes "is_html_asset chunk"
    and "transformDocument pf base options (done @ (name, chunk) # todo) rs name
      (sourceToString pf (asset_source chunk)) st = Some (rs', Inl err, st')"
  shows "generateBundle_loop pf base options done ((name, chunk) # todo) rs st
    = Some (done @ (name, chunk) # todo, rs', st', Some err)"
  using assms by simp

text \<open>
  What the code does with a reference that passes the filter, whose url does not begin with
  \<open>http\<close>, and whose bundle key has no entry: without \<open>ignoreMissingAssets\<close> the scan ends
  there with the error for that url, and a pass whose scan arrives at this point returns the
  error and no text; with \<open>ignoreMissingAssets\<close> the scan goes on behind the match with the
  same list of changes.
\<close>

lemma missing_asset_in_scan:
  assumes "regex_exec re html lastIndex = (Some m, e)"
    and "shouldProcessUrl (urlGroup m) (filterOptions options) st = (True, st1)"
    and "\<not> startsWith (urlGroup m) ''http''"
    and "map_of bundle (getBundleKey (workdir pf) base htmlPath (urlGroup m)) = None"
  shows "(\<not> ignoreMissingAsset options \<longrightarrow>
        scanLoop pf base options bundle re endOffset htmlPath html lastIndex changes st
          = Some (e, Inl (AssetNotFound (urlGroup m)), st1))
    \<and> (ignoreMissingAsset options \<longrightarrow>
        scanLoop pf base options bundle re endOffset htmlPath html lastIndex changes st
          = scanLoop pf base options bundle re endOffset htmlPath html e changes st1)"
proof (intro conjI impI)
  assume strict: "\<not> ignoreMissingAsset options"
  have thrown: "snd (calculateIntegrity pf base (ignoreMissingAsset options) bundle htmlPath
      (urlGroup m)) = Inl (AssetNotFound (urlGroup m))"
    using calculateIntegrity_missing [OF assms(3,4)] strict by simp
  show "scanLoop pf base options bundle re endOffset htmlPath html lastIndex changes st
      = Some (e, Inl (AssetNotFound (urlGroup m)), st1)"
    by (rule scanLoop_throws [OF assms(1,2) thrown])
next
  assume "ignoreMissingAsset options"
  then have "snd (calculateIntegrity pf base (ignoreMissingAsset options) bundle htmlPath
      (urlGroup m)) = Inr None"
    using calculateIntegrity_missing [OF assms(3,4)] by simp
  then show "scanLoop pf base options bundle re endOffset htmlPath html lastIndex changes st
      = scanLoop pf base options bundle re endOffset htmlPath html e changes st1"
    by (rule scanLoop_skipped [OF assms(1,2)])
qed

text \<open>On the sample bundle with the missing script, without and with \<open>ignoreMissingAssets\<close>.\<close>

lemma missing_asset_sample:
  "(case generateBundle sample_platform ''/'' no_options (broken_bundle, idle, fresh) of
      Some ((b, rs, st), err) \<Rightarrow>
        b = broken_bundle \<and> err = Some (AssetNotFound ''/assets/missing.js'')
    | None \<Rightarrow> False)
   \<and> (case scanLoop sample_platform ''/'' ignoring_options broken_bundle EXTERNAL_SCRIPT_RE 10
          ''index.html'' broken_page 0 [] fresh of
        Some (l, r, st) \<Rightarrow> r = Inr [first_change]
      | None \<Rightarrow> False)"
  by code_simp

text \<open>
  Claim C8 (missing assets) on the code. The url \<open>httpd/app.js\<close> is a relative url, not a
  network one (\<open>isExternalUrl\<close> is false for it), and in the bundle of the sample its bundle
  key has no entry. The resolver nevertheless takes the fetch branch, because the url begins
  with \<open>http\<close>: on no platform, and whatever \<open>ignoreMissingAssets\<close> is, does it return the
  skip value or the error of a missing asset. On the sample platform, where the fetch fails,
  the scan of the page with \<open>ignoreMissingAssets\<close> set ends with the error of the fetch
  instead of skipping the reference, and the pass over the bundle ends with that error;
  without \<open>ignoreMissingAssets\<close> the error is the one of the fetch, not the one of a missing
  asset. The bundle is left as it was in both cases.
\<close>

theorem missing_asset_divergence:
  "\<not> isExternalUrl ''httpd/app.js''
   \<and> map_of httpd_bundle
         (getBundleKey (workdir sample_platform) ''/'' ''index.html'' ''httpd/app.js'') = None
   \<and> calculateIntegrity pf ''/'' ignoreMissing httpd_bundle ''index.html'' ''httpd/app.js''
       = ([NetworkFetch ''httpd/app.js''],
          case fetch pf ''httpd/app.js'' of
            None \<Rightarrow> Inl (FetchFailed ''httpd/app.js'')
          | Some body \<Rightarrow> Inr (Some (digest pf (Binary body))))
   \<and> snd (calculateIntegrity pf ''/'' ignoreMissing httpd_bundle ''index.html'' ''httpd/app.js'')
       \<noteq> Inr None
   \<and> snd (calculateIntegrity pf ''/'' ignoreMissing httpd_bundle ''index.html'' ''httpd/app.js'')
       \<noteq> Inl (AssetNotFound ''httpd/app.js'')
   \<and> (case scanLoop sample_platform ''/'' ignoring_options httpd_bundle EXTERNAL_SCRIPT_RE 10
          ''index.html'' httpd_page 0 [] fresh of
        Some (l, r, st) \<Rightarrow> r = Inl (FetchFailed ''httpd/app.js'')
      | None \<Rightarrow> False)
   \<and> (case generateBundle sample_platform ''/'' ignoring_options (httpd_bundle, idle, fresh) of
        Some ((b, rs, st), err) \<Rightarrow>
          b = httpd_bundle \<and> err = Some (FetchFailed ''httpd/app.js'')
      | None \<Rightarrow> False)
   \<and> (case generateBundle sample_platform ''/'' no_options (httpd_bundle, idle, fresh) of
        Some ((b, rs, st), err) \<Rightarrow>
          b = httpd_bundle \<and> err = Some (FetchFailed ''httpd/app.js'')
      | None \<Rightarrow> False)"
proof -
  have local: "\<not> isExternalUrl ''httpd/app.js''"
    by code_simp
  have absent: "map_of httpd_bundle
      (getBundleKey (workdir sample_platform) ''/'' ''index.html'' ''httpd/app.js'') = None"
    by code_simp
  have prefix: "startsWith ''httpd/app.js'' ''http''"
    by (simp add: startsWith_def)
  have fetched: "calculateIntegrity pf ''/'' ignoreMissing httpd_bundle ''index.html''
      ''httpd/app.js''
      = ([NetworkFetch ''httpd/app.js''],
         case fetch pf ''httpd/app.js'' of
           None \<Rightarrow> Inl (FetchFailed ''httpd/app.js'')
         | Some body \<Rightarrow> Inr (Some (digest pf (Binary body))))"
    unfolding calculateIntegrity_def using prefix by simp
  have no_skip: "snd (calculateIntegrity pf ''/'' ignoreMissing httpd_bundle ''index.html''
      ''httpd/app.js'') \<noteq> Inr None"
    unfolding fetched by (simp split: option.splits)
  have no_missing: "snd (calculateIntegrity pf ''/'' ignoreMissing httpd_bundle ''index.html''
      ''httpd/app.js'') \<noteq> Inl (AssetNotFound ''httpd/app.js'')"
    unfolding fetched by (simp split: option.splits)
  have scan: "(case scanLoop sample_platform ''/'' ignoring_options httpd_bundle
      EXTERNAL_SCRIPT_RE 10 ''index.html'' httpd_page 0 [] fresh of
        Some (l, r, st) \<Rightarrow> r = Inl (FetchFailed ''httpd/app.js'')
      | None \<Rightarrow> False)"
    by code_simp
  have ignoring: "(case generateBundle sample_platform ''/'' ignoring_options
      (httpd_bundle, idle, fresh) of
        Some ((b, rs, st), err) \<Rightarrow>
          b = httpd_bundle \<and> err = Some (FetchFailed ''httpd/app.js'')
      | None \<Rightarrow> False)"
    by code_simp
  have strict: "(case generateBundle sample_platform ''/'' no_options
      (httpd_bundle, idle, fresh) of
        Some ((b, rs, st), err) \<Rightarrow>
          b = httpd_bundle \<and> err = Some (FetchFailed ''httpd/app.js'')
      | None \<Rightarrow> False)"
    by code_simp
  from local absent fetched no_skip no_missing scan ignoring strict show ?thesis
    by (intro conjI)
qed


section \<open>Hook adapter\<close>

lemma configResolved_first:
  assumes "\<forall>p \<in> set before. pluginName p \<noteq> VITE_INTERNAL_ANALYSIS_PLUGIN"
    and "pluginName q = VITE_INTERNAL_ANALYSIS_PLUGIN"
  shows "configResolved (before @ q # rest) afterHook
    = Inr (before @ hijackGenerateBundle q afterHook # rest)"
  using assms by (induction before) simp_all

text \<open>
  Claim C10 (silent non-installation). When the \<open>generateBundle\<close> hook of the analysis plugin
  is absent, or is an object without a handler, \<open>hijackGenerateBundle\<close> returns the plugin as
  it was, and \<open>configResolved\<close>, which finds the plugin as the first one of that name, returns
  the configuration unchanged and without an error: the pass over the bundle is installed
  nowhere.
\<close>

theorem hook_not_installed:
  assumes "generateBundleHook plugin = NoHook \<or> generateBundleHook plugin = ObjectHook None"
  shows "hijackGenerateBundle plugin afterHook = plugin
    \<and> (pluginName plugin = VITE_INTERNAL_ANALYSIS_PLUGIN \<longrightarrow>
         (\<forall>p \<in> set before. pluginName p \<noteq> VITE_INTERNAL_ANALYSIS_PLUGIN) \<longrightarrow>
         configResolved (before @ plugin # rest) afterHook = Inr (before @ plugin # rest))"
proof -
  have same: "hijackGenerateBundle plugin afterHook = plugin"
    using assms by (auto simp: hijackGenerateBundle_def)
  then show ?thesis
    using configResolved_first [of before plugin rest afterHook] by simp
qed

theorem hook_not_installed_witness:
  "generateBundleHook (sample_plugins ! 1) = ObjectHook None
   \<and> pluginName (sample_plugins ! 1) = VITE_INTERNAL_ANALYSIS_PLUGIN
   \<and> list_all (\<lambda>p. pluginName p \<noteq> VITE_INTERNAL_ANALYSIS_PLUGIN) [sample_plugins ! 0]
   \<and> sample_plugins = [sample_plugins ! 0] @ sample_plugins ! 1 # []
   \<and> sri sample_platform ''/'' no_options sample_plugins = Inr sample_plugins"
proof -
  have h: "generateBundleHook (sample_plugins ! 1) = NoHook
      \<or> generateBundleHook (sample_plugins ! 1) = ObjectHook None"
    and g: "generateBundleHook (sample_plugins ! 1) = ObjectHook None"
    by (simp_all add: sample_plugins_def)
  have n: "pluginName (sample_plugins ! 1) = VITE_INTERNAL_ANALYSIS_PLUGIN"
    by (simp add: sample_plugins_def VITE_INTERNAL_ANALYSIS_PLUGIN_def)
  have b: "\<forall>p \<in> set [sample_plugins ! 0]. pluginName p \<noteq> VITE_INTERNAL_ANALYSIS_PLUGIN"
    by (simp add: sample_plugins_def VITE_INTERNAL_ANALYSIS_PLUGIN_def)
  have l: "sample_plugins = [sample_plugins ! 0] @ sample_plugins ! 1 # []"
    by (simp add: sample_plugins_def)
  have "configResolved ([sample_plugins ! 0] @ sample_plugins ! 1 # [])
      (generateBundle sample_platform ''/'' no_options)
    = Inr ([sample_plugins ! 0] @ sample_plugins ! 1 # [])"
    using hook_not_installed [OF h,
        where before = "[sample_plugins ! 0]" and rest = "[]"
          and afterHook = "generateBundle sample_platform ''/'' no_options"] n b
    by blast
  then have s: "sri sample_platform ''/'' no_options sample_plugins = Inr sample_plugins"
    unfolding sri_def l [symmetric] .
  from g n b l s show ?thesis
    by (simp add: list_all_iff)
qed


section \<open>The pass over the bundle returns\<close>

lemma transformHTML_returns:
  assumes "regex_ok least re"
  shows "\<exists>l r st'. transformHTML pf base options bundle re lastIndex endOffset htmlPath html st
    = Some (l, r, st')"
proof -
  from scan_then_patch [OF assms, of pf base options "bundle" endOffset htmlPath html st]
  show ?thesis by blast
qed

lemma transformDocument_returns:
  "\<exists>rs' r st'. transformDocument pf base options bundle rs name html st = Some (rs', r, st')"
proof -
  obtain l1 r1 st1 where p1: "transformHTML pf base options bundle EXTERNAL_SCRIPT_RE
      (script_lastIndex rs) 10 name html st = Some (l1, r1, st1)"
    using transformHTML_returns [OF script_regex_ok] by blast
  show ?thesis
  proof (cases r1)
    case (Inl e)
    then show ?thesis by (simp add: transformDocument_def p1)
  next
    case (Inr html1)
    obtain l2 r2 st2 where p2: "transformHTML pf base options bundle EXTERNAL_CSS_RE
        (css_lastIndex rs) 1 name html1 st1 = Some (l2, r2, st2)"
      using transformHTML_returns [OF link_regex_ok] unfolding EXTERNAL_CSS_RE_def by blast
    show ?thesis
    proof (cases r2)
      case (Inl e)
      then show ?thesis by (simp add: transformDocument_def p1 p2 Inr)
    next
      case inner: (Inr html2)
      obtain l3 r3 st3 where p3: "transformHTML pf base options bundle EXTERNAL_MODULE_RE
          (module_lastIndex rs) 1 name html2 st2 = Some (l3, r3, st3)"
        using transformHTML_returns [OF link_regex_ok] unfolding EXTERNAL_MODULE_RE_def by blast
      show ?thesis by (simp add: transformDocument_def p1 p2 p3 Inr inner)
    qed
  qed
qed

lemma generateBundle_loop_returns:
  "\<exists>r. generateBundle_loop pf base options seen todo rs st = Some r"
proof (induction todo arbitrary: seen rs st)
  case Nil
  show ?case by simp
next
  case (Cons entry todo)
  obtain name chunk where entry: "entry = (name, chunk)"
    by (cases entry)
  show ?case
  proof (cases "is_html_asset chunk")
    case False
    then show ?thesis using Cons.IH entry by simp
  next
    case True
    obtain rs' r st' where doc: "transformDocument pf base options (seen @ (name, chunk) # todo)
        rs name (sourceToString pf (asset_source chunk)) st = Some (rs', r, st')"
      using transformDocument_returns by blast
    show ?thesis
    proof (cases r)
      case (Inl e)
      then show ?thesis using True doc entry by simp
    next
      case (Inr html)
      then show ?thesis using True doc entry Cons.IH by simp
    qed
  qed
qed

lemma generateBundle_returns:
  "\<exists>state' e. generateBundle pf base options state = Some (state', e)"
proof -
  obtain items rs st where state: "state = (items, rs, st)"
    by (cases state)
  obtain r where "generateBundle_loop pf base options [] items rs st = Some r"
    using generateBundle_loop_returns by blast
  then show ?thesis
    by (cases r) (simp add: generateBundle_def state)
qed

text \<open>Scenario A of the specification, on the sample bundle.\<close>

lemma scenario_A:
  "(case transformDocument sample_platform ''/'' no_options sample_bundle idle ''index.html''
      scenario_page fresh of
      Some (rs, r, st) \<Rightarrow> rs = idle \<and> r = Inr scenario_result
    | None \<Rightarrow> False)"
  by code_simp


end
